theory Spec2Isabelle
  imports Complex_Main "HOL-Library.Multiset"
begin

section \<open>Data model of amp-story-interactive\<close>

text \<open>
  \<^verbatim>\<open>InteractiveOptionType\<close>: one aggregate entry of a retrieval response,
  \<^verbatim>\<open>{optionIndex: number, totalCount: number, selectedByUser: boolean}\<close>.
  Counts are non-negative integers.
\<close>

record InteractiveOptionType =
  optionIndex :: nat
  totalCount :: nat
  selectedByUser :: bool

text \<open>
  \<^verbatim>\<open>InteractiveResponseType\<close>: \<^verbatim>\<open>{options: Array<InteractiveOptionType>}\<close>.
  The field may be absent from a payload, and the response itself may be \<^verbatim>\<open>undefined\<close>
  (a value of type \<open>InteractiveResponseType option\<close>).
\<close>

record InteractiveResponseType =
  options :: "InteractiveOptionType list option"

section \<open>Percentages: \<^verbatim>\<open>preprocessPercentages_\<close>\<close>

subsection \<open>Numbers\<close>

text \<open>
  \<^verbatim>\<open>x.toFixed(2)\<close> yields a decimal string with exactly two fraction digits. Such a string
  is represented by its value in hundredths: \<^verbatim>\<open>"33.33"\<close> is \<open>3333\<close>, \<^verbatim>\<open>"0.50"\<close> is \<open>50\<close>.
  Two strings are equal exactly when their hundredths are.
\<close>

type_synonym fixed2 = nat

text \<open>
  \<^verbatim>\<open>(a / b).toFixed(2)\<close> is the multiple of 0.01 nearest to the quotient. When the exact
  quotient lies half way between two multiples, the IEEE double that holds it may sit on either
  side of the exact value (or on it, and then the larger multiple is taken): the direction is
  the parameter \<open>up\<close>, and every theorem below holds for every choice of it. The model is
  exact for totals below \<open>2 ^ 38\<close>, where the rounding error of the double is smaller than the
  distance of a quotient to the nearest half way point it does not hit; a theorem that rests on
  how the quotient is rounded assumes that bound.
\<close>

type_synonym rounding = "nat \<Rightarrow> nat \<Rightarrow> bool"

definition toFixed2 :: "rounding \<Rightarrow> nat \<Rightarrow> nat \<Rightarrow> fixed2" where
  "toFixed2 up a b =
     (let n = (100 * a) div b; r = (100 * a) mod b
      in if 2 * r < b then n
         else if b < 2 * r then n + 1
         else if up a b then n + 1 else n)"

text \<open>The direction of ECMAScript's \<^verbatim>\<open>toFixed\<close> on an exactly held quotient: the larger one.\<close>

definition larger_n :: rounding where
  "larger_n a b = True"

text \<open>\<^verbatim>\<open>Math.round\<close> (half way cases go up) and \<^verbatim>\<open>Math.floor\<close> of a two-digit decimal.\<close>

definition Math_round :: "fixed2 \<Rightarrow> nat" where
  "Math_round x = (x + 50) div 100"

definition Math_floor :: "fixed2 \<Rightarrow> nat" where
  "Math_floor x = x div 100"

text \<open>
  An element of the returned array: a hole that was never assigned (\<^verbatim>\<open>undefined\<close> when
  read), \<^verbatim>\<open>NaN\<close>, or an integer.
\<close>

datatype jsnumber = Undefined | NaN | Number nat

text \<open>
  \<^verbatim>\<open>finalPercentages[i] = v\<close> on a JavaScript array: an index beyond the end extends the
  array, leaving holes in between.
\<close>

definition assign :: "nat \<times> nat \<Rightarrow> jsnumber list \<Rightarrow> jsnumber list" where
  "assign w a =
     (if fst w < length a then a[fst w := Number (snd w)]
      else a @ replicate (fst w - length a) Undefined @ [Number (snd w)])"

subsection \<open>The steps of the function\<close>

text \<open>\<^verbatim>\<open>optionsData.reduce((acc, response) => acc + response['totalCount'], 0)\<close>\<close>

definition totalResponseCount :: "InteractiveOptionType list \<Rightarrow> nat" where
  "totalResponseCount optionsData = fold (\<lambda>response acc. acc + totalCount response) optionsData 0"

text \<open>\<^verbatim>\<open>optionsData.map((e) => ((100 * e['totalCount']) / totalResponseCount).toFixed(2))\<close>\<close>

definition rawPercentages :: "rounding \<Rightarrow> InteractiveOptionType list \<Rightarrow> fixed2 list" where
  "rawPercentages up optionsData =
     map (\<lambda>e. toFixed2 up (100 * totalCount e) (totalResponseCount optionsData)) optionsData"

text \<open>\<^verbatim>\<open>percentages.reduce((acc, x) => acc + Math.round(x), 0)\<close>\<close>

definition roundedTotal :: "fixed2 list \<Rightarrow> nat" where
  "roundedTotal percentages = fold (\<lambda>x acc. acc + Math_round x) percentages 0"

text \<open>
  \<^verbatim>\<open>(percentage - (2 * (percentage - Math.floor(percentage))) / 3).toFixed(2)\<close>: with
  \<open>percentage = h / 100\<close> the argument is \<open>(3 * h - 2 * (h - 100 * floor)) / 300\<close>.
\<close>

definition adjust :: "rounding \<Rightarrow> fixed2 \<Rightarrow> fixed2" where
  "adjust up percentage =
     toFixed2 up (3 * percentage - 2 * (percentage - 100 * Math_floor percentage)) 300"

text \<open>The elements of \<^verbatim>\<open>preserveOriginal\<close>; \<open>value\<close> is a keyword, hence \<open>pvalue\<close>.\<close>

datatype entry = Entry (originalIndex: nat) (pvalue: fixed2) (remainder: fixed2)

text \<open>
  \<^verbatim>\<open>percentages.map((percentage, index) => {originalIndex, value, remainder})\<close> with
  \<^verbatim>\<open>remainder: (percentage - Math.floor(percentage)).toFixed(2)\<close>.
\<close>

definition preserve :: "rounding \<Rightarrow> fixed2 list \<Rightarrow> entry list" where
  "preserve up percentages =
     map (\<lambda>(index, percentage).
            Entry index percentage (toFixed2 up (percentage - 100 * Math_floor percentage) 100))
         (enumerate 0 percentages)"

text \<open>
  The comparator \<^verbatim>\<open>right.remainder - left.remainder || right.value - left.value\<close>: the
  first difference unless it is zero.
\<close>

definition compare :: "entry \<Rightarrow> entry \<Rightarrow> int" where
  "compare left right =
     (if int (remainder right) - int (remainder left) \<noteq> 0
      then int (remainder right) - int (remainder left)
      else int (pvalue right) - int (pvalue left))"

text \<open>\<^verbatim>\<open>Array.prototype.sort\<close> with that comparator: a stable sort.\<close>

fun insert_entry :: "entry \<Rightarrow> entry list \<Rightarrow> entry list" where
  "insert_entry x [] = [x]"
| "insert_entry x (y # ys) =
     (if compare x y \<le> 0 then x # y # ys else y # insert_entry x ys)"

definition sort_entries :: "entry list \<Rightarrow> entry list" where
  "sort_entries xs = foldr insert_entry xs []"

text \<open>
  The \<^verbatim>\<open>while (remainder > 0 && preserveOriginal.length !== 0)\<close> loop. Its state is the
  remaining budget, the entries not yet visited and the assignments
  \<^verbatim>\<open>finalPercentages[originalIndex] = v\<close> made so far, in order.
\<close>

function while_loop ::
  "int \<Rightarrow> entry list \<Rightarrow> (nat \<times> nat) list \<Rightarrow> int \<times> entry list \<times> (nat \<times> nat) list" where
  "while_loop rem preserveOriginal assigned =
     (if 0 < rem \<and> preserveOriginal \<noteq> [] then
        let highestRemainderObj = hd preserveOriginal;
            ties = filter (\<lambda>percentageObj. pvalue percentageObj = pvalue highestRemainderObj)
                     preserveOriginal;
            rest = filter (\<lambda>percentageObj. pvalue percentageObj \<noteq> pvalue highestRemainderObj)
                     preserveOriginal;
            toRoundUp = (int (length ties) \<le> rem \<and> remainder highestRemainderObj \<noteq> 0)
        in while_loop (rem - (if toRoundUp then int (length ties) else 0)) rest
             (assigned @
              map (\<lambda>percentageObj.
                     (originalIndex percentageObj,
                      Math_floor (pvalue percentageObj) + (if toRoundUp then 1 else 0)))
                  ties)
      else (rem, preserveOriginal, assigned))"
  by pat_completeness auto
termination
proof (relation "measure (\<lambda>(rem, preserveOriginal, assigned). length preserveOriginal)")
  show "wf (measure (\<lambda>(rem, preserveOriginal, assigned). length preserveOriginal))"
    by simp
next
  fix rem :: int and preserveOriginal :: "entry list" and assigned :: "(nat \<times> nat) list"
    and x xa xb xc
  assume "0 < rem \<and> preserveOriginal \<noteq> []" and "x = hd preserveOriginal"
    and "xb = filter (\<lambda>percentageObj. pvalue percentageObj \<noteq> pvalue x) preserveOriginal"
  then obtain y ys where "preserveOriginal = y # ys" and "x = y"
    by (cases preserveOriginal) auto
  then have "length xb \<le> length ys"
    using \<open>xb = _\<close> by simp
  then show "((rem - (if xc then int (length xa) else 0), xb,
               assigned @ map (\<lambda>percentageObj. (originalIndex percentageObj,
                     Math_floor (pvalue percentageObj) + (if xc then 1 else 0))) xa),
              rem, preserveOriginal, assigned)
             \<in> measure (\<lambda>(rem, preserveOriginal, assigned). length preserveOriginal)"
    using \<open>preserveOriginal = y # ys\<close> by simp
qed

declare while_loop.simps [simp del]

text \<open>
  Lines 463 to 507: the sorted entries, the loop, the floor of every entry the loop left, and the
  array that the assignments build.
\<close>

definition assignments :: "rounding \<Rightarrow> fixed2 list \<Rightarrow> int \<Rightarrow> (nat \<times> nat) list" where
  "assignments up percentages rem =
     (let preserveOriginal = sort_entries (preserve up percentages);
          (rem, preserveOriginal, assigned) = while_loop rem preserveOriginal []
      in assigned @
         map (\<lambda>percentageObj. (originalIndex percentageObj, Math_floor (pvalue percentageObj)))
             preserveOriginal)"

definition finalPercentages :: "rounding \<Rightarrow> fixed2 list \<Rightarrow> int \<Rightarrow> jsnumber list" where
  "finalPercentages up percentages rem = fold assign (assignments up percentages rem) []"

text \<open>
  The whole function. A zero total makes every quotient \<^verbatim>\<open>NaN\<close>: no comparison with it
  holds, the loop is not entered and every entry is \<^verbatim>\<open>Math.floor("NaN")\<close>.
\<close>

definition preprocessPercentages :: "rounding \<Rightarrow> InteractiveOptionType list \<Rightarrow> jsnumber list" where
  "preprocessPercentages up optionsData =
     (if totalResponseCount optionsData = 0 then map (\<lambda>e. NaN) optionsData
      else
        let percentages = rawPercentages up optionsData;
            total = roundedTotal percentages;
            percentages = (if 100 < total then map (adjust up) percentages else percentages);
            total = (if 100 < total then roundedTotal percentages else total)
        in if total = 100 then map (\<lambda>percentage. Number (Math_round percentage)) percentages
           else finalPercentages up percentages (100 - int total))"

section \<open>The widget: taps and retrieval\<close>

text \<open>
  Names are the source's without the trailing underscore of private members. The host is
  single threaded: each handler runs to completion, and the callbacks registered on a promise
  run, in order of registration, when it settles.
\<close>

text \<open>The state of \<^verbatim>\<open>backendDataPromise_\<close> once \<^verbatim>\<open>layoutCallback\<close> has created it.\<close>

datatype promise = Pending | Resolved | Rejected

text \<open>
  The calls made inside \<^verbatim>\<open>mutateElement\<close>: \<^verbatim>\<open>updateOptionPercentages_(data)\<close> of the
  subclass, and \<^verbatim>\<open>updateToPostSelectionState_(option)\<close>, which marks the root as
  post-selection, the option as selected and, when \<^verbatim>\<open>optionsData_\<close> is set, the root as
  having data. No handler changes \<^verbatim>\<open>optionsData_\<close> between the request of a mutation and its
  run, so the calls are recorded when they are requested.
\<close>

datatype render =
  UpdateOptionPercentages "InteractiveOptionType list"
| UpdateToPostSelectionState nat bool

text \<open>
  A handler either returns or throws; both carry the state reached. The only throws are the
  \<^verbatim>\<open>TypeError\<close>s of a member access on \<^verbatim>\<open>null\<close> or \<^verbatim>\<open>undefined\<close>.
\<close>

datatype 'a completion = Returned 'a | Threw 'a

fun state_of :: "'a completion \<Rightarrow> 'a" where
  "state_of (Returned s) = s"
| "state_of (Threw s) = s"

text \<open>
  The fields of the element that the handlers read and write. \<open>endpoint\<close> is the attribute:
  absent, or present with the answer of \<^verbatim>\<open>assertAbsoluteHttpOrHttpsUrl\<close> on it (a function
  of another module, taken as given). \<open>numOptions\<close> is the number of elements of class
  \<^verbatim>\<open>i-amphtml-story-interactive-option\<close> under the root; an option element is identified
  with its \<^verbatim>\<open>optionIndex_\<close>. \<open>reactions\<close> are the option elements whose
  \<^verbatim>\<open>then\<close>/\<^verbatim>\<open>catch\<close> callbacks wait on the pending promise. The last four fields record
  the calls to the collaborators: analytics events, mutations, POST requests and
  \<^verbatim>\<open>dev().error\<close>.
\<close>

record widget =
  endpoint :: "bool option"
  numOptions :: nat
  hasUserSelection :: bool
  optionsData :: "InteractiveOptionType list option"
  backendDataPromise :: "promise option"
  reactions :: "nat list"
  analytics :: "nat list"
  rendered :: "render list"
  posted :: "nat list"
  errorsLogged :: nat

text \<open>The constructor: no selection, no data, no promise.\<close>

definition constructed :: "bool option \<Rightarrow> nat \<Rightarrow> widget" where
  "constructed ep n =
     \<lparr>endpoint = ep, numOptions = n, hasUserSelection = False, optionsData = None,
      backendDataPromise = None, reactions = [], analytics = [], rendered = [], posted = [],
      errorsLogged = 0\<rparr>"

definition triggerAnalytics :: "nat \<Rightarrow> widget \<Rightarrow> widget" where
  "triggerAnalytics optionEl s = s\<lparr>analytics := analytics s @ [optionEl]\<rparr>"

definition mutateElement :: "render list \<Rightarrow> widget \<Rightarrow> widget" where
  "mutateElement calls s = s\<lparr>rendered := rendered s @ calls\<rparr>"

definition updateToPostSelectionState :: "nat \<Rightarrow> widget \<Rightarrow> render" where
  "updateToPostSelectionState selectedOption s =
     UpdateToPostSelectionState selectedOption (optionsData s \<noteq> None)"

text \<open>
  \<^verbatim>\<open>executeInteractiveRequest_\<close>: a rejected promise for an invalid endpoint, otherwise a
  request that settles later. A POST is recorded; its promise is dropped by the caller.
\<close>

definition executeInteractiveRequest_GET :: "widget \<Rightarrow> promise" where
  "executeInteractiveRequest_GET s = (if endpoint s = Some True then Pending else Rejected)"

definition executeInteractiveRequest_POST :: "nat \<Rightarrow> widget \<Rightarrow> widget" where
  "executeInteractiveRequest_POST optionSelected s =
     (if endpoint s = Some True then s\<lparr>posted := posted s @ [optionSelected]\<rparr> else s)"

text \<open>\<^verbatim>\<open>layoutCallback\<close>: the retrieval when there is an endpoint, else a resolved promise.\<close>

definition layoutCallback :: "widget \<Rightarrow> widget" where
  "layoutCallback s =
     s\<lparr>backendDataPromise :=
         Some (if endpoint s \<noteq> None then executeInteractiveRequest_GET s else Resolved)\<rparr>"

text \<open>
  \<^verbatim>\<open>updateComponentOnDataRetrieval_\<close>: stores the data; every entry flagged
  \<^verbatim>\<open>selectedByUser\<close> locks the selection and requests the post-selection mutation for the
  option at its position.
\<close>

definition forEach_response ::
  "InteractiveOptionType list \<Rightarrow> nat \<times> InteractiveOptionType \<Rightarrow> widget \<Rightarrow> widget" where
  "forEach_response data = (\<lambda>(index, response) s.
     if selectedByUser response
     then mutateElement [UpdateOptionPercentages data, updateToPostSelectionState index s]
            (s\<lparr>hasUserSelection := True\<rparr>)
     else s)"

definition updateComponentOnDataRetrieval :: "InteractiveOptionType list \<Rightarrow> widget \<Rightarrow> widget" where
  "updateComponentOnDataRetrieval data s =
     fold (forEach_response data) (enumerate 0 data) (s\<lparr>optionsData := Some data\<rparr>)"

text \<open>
  \<^verbatim>\<open>handleSuccessfulDataRetrieval_\<close>. \<^verbatim>\<open>devAssert\<close> is compiled out of production code, so
  a response without options is logged and dropped.
\<close>

definition handleSuccessfulDataRetrieval :: "InteractiveResponseType option \<Rightarrow> widget \<Rightarrow> widget" where
  "handleSuccessfulDataRetrieval response s =
     (case response of
        None \<Rightarrow> s\<lparr>errorsLogged := errorsLogged s + 1\<rparr>
      | Some r \<Rightarrow>
          (case options r of
             None \<Rightarrow> s\<lparr>errorsLogged := errorsLogged s + 1\<rparr>
           | Some opts \<Rightarrow> updateComponentOnDataRetrieval (take (numOptions s) opts) s))"

text \<open>
  The two callbacks of \<^verbatim>\<open>handleOptionSelection_\<close>. The first throws when
  \<^verbatim>\<open>optionsData_\<close> has no entry at the option's index.
\<close>

definition selection_then :: "nat \<Rightarrow> widget \<Rightarrow> widget completion" where
  "selection_then optionEl s =
     (if hasUserSelection s then Returned s
      else
        let s = triggerAnalytics optionEl s;
            s = s\<lparr>hasUserSelection := True\<rparr>
        in case optionsData s of
             None \<Rightarrow>
               Returned (executeInteractiveRequest_POST optionEl
                 (mutateElement [updateToPostSelectionState optionEl s] s))
           | Some data \<Rightarrow>
               if optionEl < length data then
                 let data = data[optionEl := (data ! optionEl)
                              \<lparr>totalCount := totalCount (data ! optionEl) + 1,
                               selectedByUser := True\<rparr>];
                     s = s\<lparr>optionsData := Some data\<rparr>
                 in Returned (executeInteractiveRequest_POST optionEl
                      (mutateElement
                         [UpdateOptionPercentages data, updateToPostSelectionState optionEl s] s))
               else Threw s)"

definition selection_catch :: "nat \<Rightarrow> widget \<Rightarrow> widget" where
  "selection_catch optionEl s =
     (let s = triggerAnalytics optionEl s;
          s = s\<lparr>hasUserSelection := True\<rparr>
      in mutateElement [updateToPostSelectionState optionEl s] s)"

text \<open>\<^verbatim>\<open>.then(f).catch(g)\<close> on a promise that resolved, and on one that rejected.\<close>

definition on_resolved :: "nat \<Rightarrow> widget \<Rightarrow> widget" where
  "on_resolved optionEl s =
     (case selection_then optionEl s of
        Returned s' \<Rightarrow> s'
      | Threw s' \<Rightarrow> selection_catch optionEl s')"

definition on_rejected :: "nat \<Rightarrow> widget \<Rightarrow> widget" where
  "on_rejected optionEl s = selection_catch optionEl s"

text \<open>
  \<^verbatim>\<open>handleOptionSelection_\<close>: registers the callbacks; on a settled promise they run before
  any other event. Before \<^verbatim>\<open>layoutCallback\<close> the promise is \<^verbatim>\<open>null\<close>.
\<close>

definition handleOptionSelection :: "nat \<Rightarrow> widget \<Rightarrow> widget completion" where
  "handleOptionSelection optionEl s =
     (case backendDataPromise s of
        None \<Rightarrow> Threw s
      | Some Pending \<Rightarrow> Returned (s\<lparr>reactions := reactions s @ [optionEl]\<rparr>)
      | Some Resolved \<Rightarrow> Returned (on_resolved optionEl s)
      | Some Rejected \<Rightarrow> Returned (on_rejected optionEl s))"

text \<open>
  \<^verbatim>\<open>handleTap_\<close>: the event carries the option element that encloses the click target, if
  there is one.
\<close>

definition handleTap :: "nat option \<Rightarrow> widget \<Rightarrow> widget completion" where
  "handleTap e s =
     (if hasUserSelection s then Returned s
      else case e of
             None \<Rightarrow> Returned s
           | Some optionEl \<Rightarrow> handleOptionSelection optionEl s)"

text \<open>
  The events of a laid out widget: a tap; the retrieval completing with a response
  (\<^verbatim>\<open>undefined\<close> after a network error, which the request's own \<^verbatim>\<open>catch\<close> logs); the
  retrieval rejecting. The last two happen to a pending promise only.
\<close>

datatype event =
  Tap "nat option"
| Retrieved "InteractiveResponseType option"
| RetrievalRejected

definition settle :: "promise \<Rightarrow> widget \<Rightarrow> widget" where
  "settle p s =
     fold (if p = Resolved then on_resolved else on_rejected) (reactions s)
       (s\<lparr>backendDataPromise := Some p, reactions := []\<rparr>)"

fun step :: "event \<Rightarrow> widget \<Rightarrow> widget" where
  "step (Tap e) s = state_of (handleTap e s)"
| "step (Retrieved response) s =
     (if backendDataPromise s = Some Pending
      then settle Resolved (handleSuccessfulDataRetrieval response s) else s)"
| "step RetrievalRejected s =
     (if backendDataPromise s = Some Pending then settle Rejected s else s)"

definition run :: "event list \<Rightarrow> widget \<Rightarrow> widget" where
  "run events s = fold step events s"

text \<open>The number of entries flagged as selected by the user.\<close>

definition selectedCount :: "widget \<Rightarrow> nat" where
  "selectedCount s =
     (case optionsData s of None \<Rightarrow> 0 | Some data \<Rightarrow> length (filter selectedByUser data))"

section \<open>Notions used in the properties\<close>

text \<open>The percentages after the correction of an overshoot (lines 441 to 455).\<close>

definition correctedPercentages :: "rounding \<Rightarrow> InteractiveOptionType list \<Rightarrow> fixed2 list" where
  "correctedPercentages up od =
     (if 100 < roundedTotal (rawPercentages up od)
      then map (adjust up) (rawPercentages up od) else rawPercentages up od)"

text \<open>The steps from there (lines 457 to 507).\<close>

definition distribute :: "rounding \<Rightarrow> fixed2 list \<Rightarrow> jsnumber list" where
  "distribute up percentages =
     (if roundedTotal percentages = 100
      then map (\<lambda>percentage. Number (Math_round percentage)) percentages
      else finalPercentages up percentages (100 - int (roundedTotal percentages)))"

text \<open>
  What the loop assigns: to each visited entry the floor of its value plus a bonus that
  depends on the value only.
\<close>

definition rounded_with :: "(fixed2 \<Rightarrow> nat) \<Rightarrow> entry list \<Rightarrow> (nat \<times> nat) list" where
  "rounded_with g qs =
     map (\<lambda>percentageObj.
            (originalIndex percentageObj,
             Math_floor (pvalue percentageObj) + g (pvalue percentageObj))) qs"

text \<open>
  The correction in the words of the specification: the percentage less two thirds of its
  fractional part, as a real number (the percentage is \<open>p\<close> hundredths).
\<close>

definition less_two_thirds_of_fraction :: "fixed2 \<Rightarrow> real" where
  "less_two_thirds_of_fraction p = real p / 100 - 2 / 3 * frac (real p / 100)"

text \<open>The invariant: an entry is flagged only on a locked widget, and at most one is.\<close>

definition single_selection :: "widget \<Rightarrow> bool" where
  "single_selection s = (selectedCount s \<le> 1 \<and> (hasUserSelection s \<or> selectedCount s = 0))"

section \<open>Properties of the widget\<close>

subsection \<open>Frame lemmas of the retrieval\<close>

lemma forEach_response_frame:
  "optionsData (fold (forEach_response data) xs s) = optionsData s"
  "analytics (fold (forEach_response data) xs s) = analytics s"
  "posted (fold (forEach_response data) xs s) = posted s"
  "reactions (fold (forEach_response data) xs s) = reactions s"
  "backendDataPromise (fold (forEach_response data) xs s) = backendDataPromise s"
  "endpoint (fold (forEach_response data) xs s) = endpoint s"
  "numOptions (fold (forEach_response data) xs s) = numOptions s"
  "errorsLogged (fold (forEach_response data) xs s) = errorsLogged s"
  by (induction xs arbitrary: s; simp add: forEach_response_def mutateElement_def split: prod.split)+

lemma updateComponentOnDataRetrieval_frame:
  "optionsData (updateComponentOnDataRetrieval data s) = Some data"
  "analytics (updateComponentOnDataRetrieval data s) = analytics s"
  "posted (updateComponentOnDataRetrieval data s) = posted s"
  "reactions (updateComponentOnDataRetrieval data s) = reactions s"
  "backendDataPromise (updateComponentOnDataRetrieval data s) = backendDataPromise s"
  "endpoint (updateComponentOnDataRetrieval data s) = endpoint s"
  "numOptions (updateComponentOnDataRetrieval data s) = numOptions s"
  "errorsLogged (updateComponentOnDataRetrieval data s) = errorsLogged s"
  unfolding updateComponentOnDataRetrieval_def
  by (simp_all add: forEach_response_frame)

lemma forEach_response_locked:
  "hasUserSelection (fold (forEach_response data) xs s)
     = (hasUserSelection s \<or> (\<exists>x\<in>set xs. selectedByUser (snd x)))"
  by (induction xs arbitrary: s)
     (auto simp: forEach_response_def mutateElement_def split: prod.split)

lemma flagged_enumerate:
  "(\<exists>x\<in>set (enumerate n data). selectedByUser (snd x)) = (\<exists>x\<in>set data. selectedByUser x)"
proof -
  have "set data = snd ` set (enumerate n data)"
    by (metis map_snd_enumerate set_map)
  then show ?thesis by auto
qed

lemma updateComponentOnDataRetrieval_locked:
  "hasUserSelection (updateComponentOnDataRetrieval data s)
     = (hasUserSelection s \<or> (\<exists>x\<in>set data. selectedByUser x))"
  unfolding updateComponentOnDataRetrieval_def
  by (simp add: forEach_response_locked flagged_enumerate)

lemma forEach_response_unflagged:
  "\<forall>x\<in>set xs. \<not> selectedByUser (snd x) \<Longrightarrow> fold (forEach_response data) xs s = s"
  by (induction xs arbitrary: s) (auto simp: forEach_response_def)

lemma updateComponentOnDataRetrieval_unflagged:
  assumes "\<forall>x\<in>set data. \<not> selectedByUser x"
  shows "updateComponentOnDataRetrieval data s = s\<lparr>optionsData := Some data\<rparr>"
proof -
  have "\<forall>x\<in>set (enumerate 0 data). \<not> selectedByUser (snd x)"
    using assms flagged_enumerate [of 0 data] by blast
  then show ?thesis
    unfolding updateComponentOnDataRetrieval_def by (rule forEach_response_unflagged)
qed

lemma handleSuccessfulDataRetrieval_frame:
  "analytics (handleSuccessfulDataRetrieval response s) = analytics s"
  "posted (handleSuccessfulDataRetrieval response s) = posted s"
  "reactions (handleSuccessfulDataRetrieval response s) = reactions s"
  "backendDataPromise (handleSuccessfulDataRetrieval response s) = backendDataPromise s"
  "endpoint (handleSuccessfulDataRetrieval response s) = endpoint s"
  "numOptions (handleSuccessfulDataRetrieval response s) = numOptions s"
  by (simp_all add: handleSuccessfulDataRetrieval_def updateComponentOnDataRetrieval_frame
        split: option.split)

subsection \<open>The lock is never released\<close>

lemma selection_catch_locked: "hasUserSelection (selection_catch optionEl s)"
  by (simp add: selection_catch_def mutateElement_def triggerAnalytics_def Let_def)

lemma on_resolved_locked: "hasUserSelection (on_resolved optionEl s)"
  by (simp add: on_resolved_def selection_then_def selection_catch_locked Let_def
        mutateElement_def triggerAnalytics_def executeInteractiveRequest_POST_def
        split: option.split)

lemma on_resolved_noop: "hasUserSelection s \<Longrightarrow> on_resolved optionEl s = s"
  by (simp add: on_resolved_def selection_then_def)

lemma fold_on_resolved_noop: "hasUserSelection s \<Longrightarrow> fold on_resolved rs s = s"
  by (induction rs) (simp_all add: on_resolved_noop)

lemma fold_locked:
  assumes "\<And>x s. hasUserSelection s \<Longrightarrow> hasUserSelection (f x s)"
  shows "hasUserSelection s \<Longrightarrow> hasUserSelection (fold f xs s)"
  using assms by (induction xs arbitrary: s) simp_all

lemma settle_locked: "hasUserSelection s \<Longrightarrow> hasUserSelection (settle p s)"
  unfolding settle_def
  by (rule fold_locked) (simp_all add: on_resolved_locked on_rejected_def selection_catch_locked)

lemma handleSuccessfulDataRetrieval_locked:
  "hasUserSelection s \<Longrightarrow> hasUserSelection (handleSuccessfulDataRetrieval response s)"
  by (simp add: handleSuccessfulDataRetrieval_def updateComponentOnDataRetrieval_locked
        split: option.split)

lemma handleTap_locked: "hasUserSelection s \<Longrightarrow> handleTap e s = Returned s"
  by (simp add: handleTap_def)

lemma step_locked: "hasUserSelection s \<Longrightarrow> hasUserSelection (step e s)"
  by (cases e) (simp_all add: handleTap_locked settle_locked handleSuccessfulDataRetrieval_locked)

lemma run_locked: "hasUserSelection s \<Longrightarrow> hasUserSelection (run events s)"
  unfolding run_def by (rule fold_locked) (simp_all add: step_locked)

subsection \<open>Taps on a locked widget\<close>

text \<open>
  C4. Once \<open>hasUserSelection\<close> is true, a tap with any target returns at once with the state
  as it was, and so does every sequence of taps: the counts, the \<open>selectedByUser\<close> flags and
  the recorded analytics events are unchanged.
\<close>

theorem locked_taps_change_nothing:
  assumes "hasUserSelection s"
  shows "handleTap e s = Returned s \<and> run (map Tap taps) s = s"
proof
  show "handleTap e s = Returned s"
    using assms by (rule handleTap_locked)
  show "run (map Tap taps) s = s"
    unfolding run_def by (induction taps) (simp_all add: handleTap_locked [OF assms])
qed

theorem locked_taps_change_nothing_witness:
  "hasUserSelection (run [Tap (Some 0)] (layoutCallback (constructed None 2)))
   \<and> handleTap (Some 1) (run [Tap (Some 0)] (layoutCallback (constructed None 2)))
       = Returned (run [Tap (Some 0)] (layoutCallback (constructed None 2)))
   \<and> run (map Tap [Some 1, None, Some 0]) (run [Tap (Some 0)] (layoutCallback (constructed None 2)))
       = run [Tap (Some 0)] (layoutCallback (constructed None 2))"
proof -
  have locked: "hasUserSelection (run [Tap (Some 0)] (layoutCallback (constructed None 2)))"
    by (simp add: run_def handleTap_def handleOptionSelection_def layoutCallback_def
          constructed_def on_resolved_locked)
  show ?thesis
    using locked locked_taps_change_nothing [OF locked, of "Some 1" "[Some 1, None, Some 0]"]
    by simp
qed

subsection \<open>A response without options\<close>

text \<open>
  C6. A response that is \<^verbatim>\<open>undefined\<close> or has no \<^verbatim>\<open>options\<close> field only adds a logged
  error: the selection flag, the stored data and the requested mutations are as before. On a
  widget that waits for its retrieval, the selection stays open, no data is stored and nothing
  is rendered.
\<close>

theorem response_without_options_is_dropped:
  assumes "response = None \<or> (\<exists>r. response = Some r \<and> options r = None)"
  shows "handleSuccessfulDataRetrieval response s = s\<lparr>errorsLogged := errorsLogged s + 1\<rparr>
    \<and> hasUserSelection (handleSuccessfulDataRetrieval response s) = hasUserSelection s
    \<and> optionsData (handleSuccessfulDataRetrieval response s) = optionsData s
    \<and> rendered (handleSuccessfulDataRetrieval response s) = rendered s
    \<and> \<not> hasUserSelection (run [Retrieved response] (layoutCallback (constructed (Some True) n)))
    \<and> optionsData (run [Retrieved response] (layoutCallback (constructed (Some True) n))) = None
    \<and> rendered (run [Retrieved response] (layoutCallback (constructed (Some True) n))) = []"
proof -
  have dropped: "handleSuccessfulDataRetrieval response t = t\<lparr>errorsLogged := errorsLogged t + 1\<rparr>"
    for t
    using assms by (auto simp: handleSuccessfulDataRetrieval_def)
  show ?thesis
    by (simp add: dropped run_def layoutCallback_def constructed_def settle_def
          executeInteractiveRequest_GET_def)
qed

theorem response_without_options_is_dropped_witness:
  "handleSuccessfulDataRetrieval (Some \<lparr>options = None\<rparr>) (layoutCallback (constructed (Some True) 2))
     = (layoutCallback (constructed (Some True) 2))\<lparr>errorsLogged := 1\<rparr>
   \<and> \<not> hasUserSelection (run [Retrieved None] (layoutCallback (constructed (Some True) 2)))"
  using response_without_options_is_dropped
          [of "Some \<lparr>options = None\<rparr>" "layoutCallback (constructed (Some True) 2)" 2]
        response_without_options_is_dropped [of None "constructed None 0" 2]
  by (simp add: layoutCallback_def constructed_def)

subsection \<open>A response with too many entries\<close>

text \<open>
  C7. Of a response with options, the entries at the positions below the number of option
  elements are stored, in order; when the response has more entries than that, exactly that
  many are kept and the others are not stored.
\<close>

theorem surplus_entries_are_discarded:
  assumes "options r = Some opts" and "numOptions s < length opts"
  shows "optionsData (handleSuccessfulDataRetrieval (Some r) s) = Some (take (numOptions s) opts)
    \<and> length (take (numOptions s) opts) = numOptions s
    \<and> (\<forall>i < numOptions s. take (numOptions s) opts ! i = opts ! i)"
  using assms
  by (simp add: handleSuccessfulDataRetrieval_def updateComponentOnDataRetrieval_frame)

theorem surplus_entries_are_discarded_witness:
  "optionsData (handleSuccessfulDataRetrieval
      (Some \<lparr>options = Some [\<lparr>optionIndex = 0, totalCount = 3, selectedByUser = False\<rparr>,
                              \<lparr>optionIndex = 1, totalCount = 4, selectedByUser = False\<rparr>,
                              \<lparr>optionIndex = 2, totalCount = 5, selectedByUser = False\<rparr>]\<rparr>)
      (layoutCallback (constructed (Some True) 2)))
   = Some [\<lparr>optionIndex = 0, totalCount = 3, selectedByUser = False\<rparr>,
           \<lparr>optionIndex = 1, totalCount = 4, selectedByUser = False\<rparr>]"
  using surplus_entries_are_discarded
          [of "\<lparr>options = Some [\<lparr>optionIndex = 0, totalCount = 3, selectedByUser = False\<rparr>,
                              \<lparr>optionIndex = 1, totalCount = 4, selectedByUser = False\<rparr>,
                              \<lparr>optionIndex = 2, totalCount = 5, selectedByUser = False\<rparr>]\<rparr>"
              "[\<lparr>optionIndex = 0, totalCount = 3, selectedByUser = False\<rparr>,
                              \<lparr>optionIndex = 1, totalCount = 4, selectedByUser = False\<rparr>,
                              \<lparr>optionIndex = 2, totalCount = 5, selectedByUser = False\<rparr>]"
              "layoutCallback (constructed (Some True) 2)"]
  by (simp add: layoutCallback_def constructed_def)

subsection \<open>A rejected retrieval\<close>

lemma selection_catch_effect:
  "selection_catch optionEl s =
     s\<lparr>analytics := analytics s @ [optionEl], hasUserSelection := True,
       rendered := rendered s @ [UpdateToPostSelectionState optionEl (optionsData s \<noteq> None)]\<rparr>"
  by (simp add: selection_catch_def mutateElement_def triggerAnalytics_def Let_def
        updateToPostSelectionState_def)

text \<open>
  C8. An endpoint that is not an absolute HTTP(S) URL makes the backend promise reject. On a
  rejected promise a tap on an option returns normally, with the analytics event recorded, the
  selection locked and the post-selection mutation requested, and nothing else changed; the
  same holds for a tap made while the promise is pending, once it rejects. No later event
  opens the selection again.
\<close>

theorem tap_succeeds_when_backend_rejects:
  assumes "\<not> hasUserSelection s" and "reactions s = []"
  shows "backendDataPromise (layoutCallback (constructed (Some False) n)) = Some Rejected
    \<and> (backendDataPromise s = Some Rejected \<longrightarrow>
         handleTap (Some optionEl) s = Returned
           (s\<lparr>analytics := analytics s @ [optionEl], hasUserSelection := True,
              rendered := rendered s @ [UpdateToPostSelectionState optionEl (optionsData s \<noteq> None)]\<rparr>))
    \<and> (backendDataPromise s = Some Pending \<longrightarrow>
         run [Tap (Some optionEl), RetrievalRejected] s =
           s\<lparr>backendDataPromise := Some Rejected,
             analytics := analytics s @ [optionEl], hasUserSelection := True,
             rendered := rendered s @ [UpdateToPostSelectionState optionEl (optionsData s \<noteq> None)]\<rparr>)
    \<and> (backendDataPromise s = Some Rejected \<or> backendDataPromise s = Some Pending \<longrightarrow>
         hasUserSelection (run (Tap (Some optionEl) # RetrievalRejected # events) s))"
proof -
  have invalid: "backendDataPromise (layoutCallback (constructed (Some False) n)) = Some Rejected"
    by (simp add: layoutCallback_def constructed_def executeInteractiveRequest_GET_def)
  have rejected: "handleTap (Some optionEl) s = Returned
           (s\<lparr>analytics := analytics s @ [optionEl], hasUserSelection := True,
              rendered := rendered s @ [UpdateToPostSelectionState optionEl (optionsData s \<noteq> None)]\<rparr>)"
    if "backendDataPromise s = Some Rejected"
    using assms that
    by (simp add: handleTap_def handleOptionSelection_def on_rejected_def selection_catch_effect)
  have pending: "run [Tap (Some optionEl), RetrievalRejected] s =
           s\<lparr>backendDataPromise := Some Rejected,
             analytics := analytics s @ [optionEl], hasUserSelection := True,
             rendered := rendered s @ [UpdateToPostSelectionState optionEl (optionsData s \<noteq> None)]\<rparr>"
    if "backendDataPromise s = Some Pending"
    using assms that
    by (simp add: run_def handleTap_def handleOptionSelection_def settle_def on_rejected_def
          selection_catch_effect)
  have stays: "hasUserSelection (run (Tap (Some optionEl) # RetrievalRejected # events) s)"
    if "backendDataPromise s = Some Rejected \<or> backendDataPromise s = Some Pending"
  proof -
    have "hasUserSelection (run [Tap (Some optionEl), RetrievalRejected] s)"
      using that
    proof
      assume r: "backendDataPromise s = Some Rejected"
      show ?thesis
        using rejected [OF r] r by (simp add: run_def)
    next
      assume "backendDataPromise s = Some Pending"
      then show ?thesis
        using pending by simp
    qed
    then have "hasUserSelection (run events (run [Tap (Some optionEl), RetrievalRejected] s))"
      by (rule run_locked)
    then show ?thesis
      by (simp add: run_def)
  qed
  show ?thesis
    using invalid rejected pending stays by blast
qed

theorem tap_succeeds_when_backend_rejects_witness:
  "\<not> hasUserSelection (layoutCallback (constructed (Some False) 2))
   \<and> reactions (layoutCallback (constructed (Some False) 2)) = []
   \<and> backendDataPromise (layoutCallback (constructed (Some False) 2)) = Some Rejected
   \<and> handleTap (Some 1) (layoutCallback (constructed (Some False) 2)) = Returned
       ((layoutCallback (constructed (Some False) 2))
          \<lparr>analytics := [1], hasUserSelection := True,
           rendered := [UpdateToPostSelectionState 1 False]\<rparr>)
   \<and> backendDataPromise (layoutCallback (constructed (Some True) 2)) = Some Pending
   \<and> hasUserSelection
       (run [Tap (Some 1), RetrievalRejected, Tap (Some 0)] (layoutCallback (constructed (Some True) 2)))"
proof -
  have a: "\<not> hasUserSelection (layoutCallback (constructed (Some False) 2))"
    and b: "reactions (layoutCallback (constructed (Some False) 2)) = []"
    and c: "backendDataPromise (layoutCallback (constructed (Some False) 2)) = Some Rejected"
    by (simp_all add: layoutCallback_def constructed_def executeInteractiveRequest_GET_def)
  have a': "\<not> hasUserSelection (layoutCallback (constructed (Some True) 2))"
    and b': "reactions (layoutCallback (constructed (Some True) 2)) = []"
    and c': "backendDataPromise (layoutCallback (constructed (Some True) 2)) = Some Pending"
    by (simp_all add: layoutCallback_def constructed_def executeInteractiveRequest_GET_def)
  show ?thesis
    using a b c c' tap_succeeds_when_backend_rejects [OF a b, of 2 1 "[]"]
      tap_succeeds_when_backend_rejects [OF a' b', of 2 1 "[Tap (Some 0)]"]
    by (simp add: layoutCallback_def constructed_def)
qed

subsection \<open>A tap before the retrieval completes\<close>

lemma forEach_response_reactions1:
  "forEach_response data x (s\<lparr>reactions := rs\<rparr>) = (forEach_response data x s)\<lparr>reactions := rs\<rparr>"
  by (cases x) (simp add: forEach_response_def mutateElement_def updateToPostSelectionState_def)

lemma forEach_response_reactions:
  "fold (forEach_response data) xs (s\<lparr>reactions := rs\<rparr>)
     = (fold (forEach_response data) xs s)\<lparr>reactions := rs\<rparr>"
  by (induction xs arbitrary: s) (simp_all add: forEach_response_reactions1)

lemma updateComponentOnDataRetrieval_reactions:
  "updateComponentOnDataRetrieval data (s\<lparr>reactions := rs\<rparr>)
     = (updateComponentOnDataRetrieval data s)\<lparr>reactions := rs\<rparr>"
proof -
  have swap: "s\<lparr>reactions := rs, optionsData := Some data\<rparr>
      = s\<lparr>optionsData := Some data, reactions := rs\<rparr>"
    by (cases s) simp
  show ?thesis
    unfolding updateComponentOnDataRetrieval_def
    by (subst swap) (rule forEach_response_reactions)
qed

lemma handleSuccessfulDataRetrieval_reactions:
  "handleSuccessfulDataRetrieval response (s\<lparr>reactions := rs\<rparr>)
     = (handleSuccessfulDataRetrieval response s)\<lparr>reactions := rs\<rparr>"
  by (simp add: handleSuccessfulDataRetrieval_def updateComponentOnDataRetrieval_reactions
        split: option.split)

lemma on_resolved_applies:
  assumes "\<not> hasUserSelection s" and "optionsData s = Some data" and "optionEl < length data"
  shows "on_resolved optionEl s =
     executeInteractiveRequest_POST optionEl
       (s\<lparr>analytics := analytics s @ [optionEl], hasUserSelection := True,
          optionsData := Some (data[optionEl := (data ! optionEl)
                                 \<lparr>totalCount := totalCount (data ! optionEl) + 1,
                                  selectedByUser := True\<rparr>]),
          rendered := rendered s @
            [UpdateOptionPercentages (data[optionEl := (data ! optionEl)
                                 \<lparr>totalCount := totalCount (data ! optionEl) + 1,
                                  selectedByUser := True\<rparr>]),
             UpdateToPostSelectionState optionEl True]\<rparr>)"
  using assms
  by (simp add: on_resolved_def selection_then_def triggerAnalytics_def mutateElement_def
        updateToPostSelectionState_def Let_def executeInteractiveRequest_POST_def)

text \<open>
  C3, as the code has it. A tap on a widget whose retrieval is pending only registers its
  callbacks: the selection is not locked, and no event or mutation is recorded. When the
  retrieval then completes with an entry flagged \<open>selectedByUser\<close> among the kept ones, the
  state is the one the retrieval alone would give: the remote entry locks the selection and
  the tap is discarded. When no kept entry is flagged, the tap is applied then: the event is
  recorded, the selection locked, and the count of the tapped entry incremented and flagged.
\<close>

theorem tap_before_retrieval_is_deferred:
  assumes "\<not> hasUserSelection s" and "backendDataPromise s = Some Pending"
    and "reactions s = []" and "options r = Some opts"
  shows "run [Tap (Some optionEl)] s = s\<lparr>reactions := [optionEl]\<rparr>
    \<and> ((\<exists>x\<in>set (take (numOptions s) opts). selectedByUser x) \<longrightarrow>
         run [Tap (Some optionEl), Retrieved (Some r)] s = run [Retrieved (Some r)] s
         \<and> hasUserSelection (run [Tap (Some optionEl), Retrieved (Some r)] s)
         \<and> analytics (run [Tap (Some optionEl), Retrieved (Some r)] s) = analytics s
         \<and> optionsData (run [Tap (Some optionEl), Retrieved (Some r)] s)
             = Some (take (numOptions s) opts))
    \<and> ((\<forall>x\<in>set (take (numOptions s) opts). \<not> selectedByUser x)
         \<and> optionEl < length (take (numOptions s) opts) \<longrightarrow>
         hasUserSelection (run [Tap (Some optionEl), Retrieved (Some r)] s)
         \<and> analytics (run [Tap (Some optionEl), Retrieved (Some r)] s) = analytics s @ [optionEl]
         \<and> optionsData (run [Tap (Some optionEl), Retrieved (Some r)] s)
             = Some ((take (numOptions s) opts)[optionEl := (opts ! optionEl)
                       \<lparr>totalCount := totalCount (opts ! optionEl) + 1,
                        selectedByUser := True\<rparr>]))"
proof -
  let ?data = "take (numOptions s) opts"
  have tap: "run [Tap (Some optionEl)] s = s\<lparr>reactions := [optionEl]\<rparr>"
    using assms by (simp add: run_def handleTap_def handleOptionSelection_def)
  have retrieved: "handleSuccessfulDataRetrieval (Some r) s = updateComponentOnDataRetrieval ?data s"
    using assms by (simp add: handleSuccessfulDataRetrieval_def)
  let ?u = "(updateComponentOnDataRetrieval ?data s)\<lparr>backendDataPromise := Some Resolved, reactions := []\<rparr>"
  have both: "run [Tap (Some optionEl), Retrieved (Some r)] s = on_resolved optionEl ?u"
    using assms tap
    by (simp add: run_def settle_def handleSuccessfulDataRetrieval_reactions retrieved
          updateComponentOnDataRetrieval_frame)
  have alone: "run [Retrieved (Some r)] s = ?u"
    using assms by (simp add: run_def settle_def retrieved updateComponentOnDataRetrieval_frame)
  have remote: "run [Tap (Some optionEl), Retrieved (Some r)] s = run [Retrieved (Some r)] s
         \<and> hasUserSelection (run [Tap (Some optionEl), Retrieved (Some r)] s)
         \<and> analytics (run [Tap (Some optionEl), Retrieved (Some r)] s) = analytics s
         \<and> optionsData (run [Tap (Some optionEl), Retrieved (Some r)] s) = Some ?data"
    if "\<exists>x\<in>set ?data. selectedByUser x"
  proof -
    have locked: "hasUserSelection ?u"
      using that by (simp add: updateComponentOnDataRetrieval_locked)
    then have "run [Tap (Some optionEl), Retrieved (Some r)] s = ?u"
      unfolding both by (rule on_resolved_noop)
    then show ?thesis
      using locked by (simp add: alone updateComponentOnDataRetrieval_frame)
  qed
  have "local": "hasUserSelection (run [Tap (Some optionEl), Retrieved (Some r)] s)
         \<and> analytics (run [Tap (Some optionEl), Retrieved (Some r)] s) = analytics s @ [optionEl]
         \<and> optionsData (run [Tap (Some optionEl), Retrieved (Some r)] s)
             = Some (?data[optionEl := (opts ! optionEl)
                       \<lparr>totalCount := totalCount (opts ! optionEl) + 1,
                        selectedByUser := True\<rparr>])"
    if none: "\<forall>x\<in>set ?data. \<not> selectedByUser x" and inside: "optionEl < length ?data"
  proof -
    let ?t = "s\<lparr>optionsData := Some ?data, backendDataPromise := Some Resolved, reactions := []\<rparr>"
    have "run [Tap (Some optionEl), Retrieved (Some r)] s = on_resolved optionEl ?t"
      unfolding both by (simp add: updateComponentOnDataRetrieval_unflagged [OF none])
    moreover have "\<not> hasUserSelection ?t" and "optionsData ?t = Some ?data"
      using assms by simp_all
    ultimately have "run [Tap (Some optionEl), Retrieved (Some r)] s =
      executeInteractiveRequest_POST optionEl
       (?t\<lparr>analytics := analytics ?t @ [optionEl], hasUserSelection := True,
          optionsData := Some (?data[optionEl := (?data ! optionEl)
                                 \<lparr>totalCount := totalCount (?data ! optionEl) + 1,
                                  selectedByUser := True\<rparr>]),
          rendered := rendered ?t @
            [UpdateOptionPercentages (?data[optionEl := (?data ! optionEl)
                                 \<lparr>totalCount := totalCount (?data ! optionEl) + 1,
                                  selectedByUser := True\<rparr>]),
             UpdateToPostSelectionState optionEl True]\<rparr>)"
      using on_resolved_applies [of ?t ?data optionEl] inside by simp
    then show ?thesis
      using inside by (simp add: executeInteractiveRequest_POST_def)
  qed
  show ?thesis
    using tap remote "local" by blast
qed

theorem tap_before_retrieval_is_deferred_witness:
  "\<not> hasUserSelection (layoutCallback (constructed (Some True) 2))
   \<and> backendDataPromise (layoutCallback (constructed (Some True) 2)) = Some Pending
   \<and> reactions (layoutCallback (constructed (Some True) 2)) = []
   \<and> run [Tap (Some 0)] (layoutCallback (constructed (Some True) 2))
       = (layoutCallback (constructed (Some True) 2))\<lparr>reactions := [0]\<rparr>
   \<and> run [Tap (Some 0), Retrieved (Some \<lparr>options = Some
          [\<lparr>optionIndex = 0, totalCount = 5, selectedByUser = False\<rparr>,
           \<lparr>optionIndex = 1, totalCount = 7, selectedByUser = True\<rparr>]\<rparr>)]
        (layoutCallback (constructed (Some True) 2))
       = run [Retrieved (Some \<lparr>options = Some
          [\<lparr>optionIndex = 0, totalCount = 5, selectedByUser = False\<rparr>,
           \<lparr>optionIndex = 1, totalCount = 7, selectedByUser = True\<rparr>]\<rparr>)]
        (layoutCallback (constructed (Some True) 2))
   \<and> optionsData (run [Tap (Some 0), Retrieved (Some \<lparr>options = Some
          [\<lparr>optionIndex = 0, totalCount = 5, selectedByUser = False\<rparr>,
           \<lparr>optionIndex = 1, totalCount = 7, selectedByUser = False\<rparr>]\<rparr>)]
        (layoutCallback (constructed (Some True) 2)))
       = Some [\<lparr>optionIndex = 0, totalCount = 6, selectedByUser = True\<rparr>,
               \<lparr>optionIndex = 1, totalCount = 7, selectedByUser = False\<rparr>]"
proof -
  let ?w = "layoutCallback (constructed (Some True) 2)"
  have a: "\<not> hasUserSelection ?w" and b: "backendDataPromise ?w = Some Pending"
    and c: "reactions ?w = []" and n: "numOptions ?w = 2"
    by (simp_all add: layoutCallback_def constructed_def executeInteractiveRequest_GET_def)
  show ?thesis
    using a b c
      tap_before_retrieval_is_deferred [OF a b c, of
        "\<lparr>options = Some [\<lparr>optionIndex = 0, totalCount = 5, selectedByUser = False\<rparr>,
          \<lparr>optionIndex = 1, totalCount = 7, selectedByUser = True\<rparr>]\<rparr>"
        "[\<lparr>optionIndex = 0, totalCount = 5, selectedByUser = False\<rparr>,
          \<lparr>optionIndex = 1, totalCount = 7, selectedByUser = True\<rparr>]" 0]
      tap_before_retrieval_is_deferred [OF a b c, of
        "\<lparr>options = Some [\<lparr>optionIndex = 0, totalCount = 5, selectedByUser = False\<rparr>,
          \<lparr>optionIndex = 1, totalCount = 7, selectedByUser = False\<rparr>]\<rparr>"
        "[\<lparr>optionIndex = 0, totalCount = 5, selectedByUser = False\<rparr>,
          \<lparr>optionIndex = 1, totalCount = 7, selectedByUser = False\<rparr>]" 0]
    by (simp add: n)
qed

text \<open>
  The claim as the specification has it fails. On a widget with two options and a pending
  retrieval, a tap on option 0 leaves the selection open; when the retrieval then completes
  with option 1 flagged, no analytics event is recorded, the stored counts are the remote
  ones, the only flagged entry is the remote one and option 1 is the one rendered as selected.
\<close>

theorem tap_before_retrieval_counterexample:
  "\<not> hasUserSelection (run [Tap (Some 0)] (layoutCallback (constructed (Some True) 2)))
   \<and> rendered (run [Tap (Some 0)] (layoutCallback (constructed (Some True) 2))) = []
   \<and> analytics (run [Tap (Some 0), Retrieved (Some \<lparr>options = Some
          [\<lparr>optionIndex = 0, totalCount = 5, selectedByUser = False\<rparr>,
           \<lparr>optionIndex = 1, totalCount = 7, selectedByUser = True\<rparr>]\<rparr>)]
        (layoutCallback (constructed (Some True) 2))) = []
   \<and> optionsData (run [Tap (Some 0), Retrieved (Some \<lparr>options = Some
          [\<lparr>optionIndex = 0, totalCount = 5, selectedByUser = False\<rparr>,
           \<lparr>optionIndex = 1, totalCount = 7, selectedByUser = True\<rparr>]\<rparr>)]
        (layoutCallback (constructed (Some True) 2)))
       = Some [\<lparr>optionIndex = 0, totalCount = 5, selectedByUser = False\<rparr>,
               \<lparr>optionIndex = 1, totalCount = 7, selectedByUser = True\<rparr>]
   \<and> rendered (run [Tap (Some 0), Retrieved (Some \<lparr>options = Some
          [\<lparr>optionIndex = 0, totalCount = 5, selectedByUser = False\<rparr>,
           \<lparr>optionIndex = 1, totalCount = 7, selectedByUser = True\<rparr>]\<rparr>)]
        (layoutCallback (constructed (Some True) 2)))
       = [UpdateOptionPercentages
            [\<lparr>optionIndex = 0, totalCount = 5, selectedByUser = False\<rparr>,
             \<lparr>optionIndex = 1, totalCount = 7, selectedByUser = True\<rparr>],
          UpdateToPostSelectionState 1 True]"
  by (simp add: run_def settle_def handleTap_def handleOptionSelection_def on_resolved_def
        selection_then_def handleSuccessfulDataRetrieval_def
        updateComponentOnDataRetrieval_def forEach_response_def mutateElement_def
        updateToPostSelectionState_def executeInteractiveRequest_GET_def layoutCallback_def
        constructed_def enumerate_eq_zip upt_rec)

subsection \<open>At most one entry is flagged\<close>

lemma filter_take_le: "length (filter P (take n xs)) \<le> length (filter P xs)"
proof -
  have "length (filter P xs) = length (filter P (take n xs @ drop n xs))"
    by simp
  also have "\<dots> = length (filter P (take n xs)) + length (filter P (drop n xs))"
    by (simp only: filter_append length_append)
  finally show ?thesis by simp
qed

lemma filter_update_unflagged:
  assumes "\<forall>x\<in>set xs. \<not> P x"
  shows "length (filter P (xs[i := y])) \<le> 1"
  using assms
proof (induction xs arbitrary: i)
  case Nil
  then show ?case by simp
next
  case (Cons x xs)
  have none: "filter P xs = []"
    using Cons.prems by (simp add: filter_empty_conv)
  show ?case
  proof (cases i)
    case 0
    then show ?thesis using none by simp
  next
    case (Suc j)
    then show ?thesis using Cons by simp
  qed
qed

lemma selectedCount_unflagged:
  "optionsData s = Some data \<Longrightarrow> selectedCount s = 0 \<Longrightarrow> \<forall>x\<in>set data. \<not> selectedByUser x"
  by (simp add: selectedCount_def filter_empty_conv)

lemma selection_catch_single: "single_selection s \<Longrightarrow> single_selection (selection_catch optionEl s)"
  by (simp add: single_selection_def selection_catch_effect selectedCount_def)

lemma on_resolved_single:
  assumes "single_selection s"
  shows "single_selection (on_resolved optionEl s)"
proof (cases "hasUserSelection s")
  case True
  then show ?thesis using assms by (simp add: on_resolved_noop)
next
  case False
  then have zero: "selectedCount s = 0"
    using assms by (simp add: single_selection_def)
  show ?thesis
  proof (cases "optionsData s")
    case None
    with False show ?thesis
      by (simp add: on_resolved_def selection_then_def single_selection_def selectedCount_def
            triggerAnalytics_def mutateElement_def executeInteractiveRequest_POST_def Let_def)
  next
    case (Some data)
    show ?thesis
    proof (cases "optionEl < length data")
      case True
      have "length (filter selectedByUser (data[optionEl := (data ! optionEl)
                                 \<lparr>totalCount := totalCount (data ! optionEl) + 1,
                                  selectedByUser := True\<rparr>])) \<le> 1"
        using selectedCount_unflagged [OF Some zero] by (rule filter_update_unflagged)
      then show ?thesis
        using on_resolved_applies [OF False Some True]
        by (simp add: single_selection_def selectedCount_def executeInteractiveRequest_POST_def)
    next
      case outside: False
      have "on_resolved optionEl s
          = selection_catch optionEl (s\<lparr>analytics := analytics s @ [optionEl], hasUserSelection := True\<rparr>)"
        using False Some outside
        by (simp add: on_resolved_def selection_then_def triggerAnalytics_def Let_def)
      moreover have "single_selection (s\<lparr>analytics := analytics s @ [optionEl], hasUserSelection := True\<rparr>)"
        using assms by (simp add: single_selection_def selectedCount_def)
      ultimately show ?thesis
        by (simp add: selection_catch_single)
    qed
  qed
qed

lemma fold_single:
  assumes "\<And>x s. single_selection s \<Longrightarrow> single_selection (f x s)"
  shows "single_selection s \<Longrightarrow> single_selection (fold f xs s)"
  using assms by (induction xs arbitrary: s) simp_all

lemma settle_single:
  assumes "single_selection s"
  shows "single_selection (settle p s)"
proof -
  have "single_selection (s\<lparr>backendDataPromise := Some p, reactions := []\<rparr>)"
    using assms by (simp add: single_selection_def selectedCount_def)
  then show ?thesis
    unfolding settle_def
    by (rule fold_single [rotated]) (simp_all add: on_resolved_single on_rejected_def selection_catch_single)
qed

lemma handleSuccessfulDataRetrieval_single:
  assumes "single_selection s"
    and "\<And>r opts. response = Some r \<Longrightarrow> options r = Some opts \<Longrightarrow> length (filter selectedByUser opts) \<le> 1"
  shows "single_selection (handleSuccessfulDataRetrieval response s)"
proof (cases "\<exists>r opts. response = Some r \<and> options r = Some opts")
  case False
  then have "handleSuccessfulDataRetrieval response s = s\<lparr>errorsLogged := errorsLogged s + 1\<rparr>"
    by (auto simp: handleSuccessfulDataRetrieval_def split: option.split)
  then show ?thesis
    using assms(1) by (simp add: single_selection_def selectedCount_def)
next
  case True
  then obtain r opts where r: "response = Some r" "options r = Some opts"
    by blast
  let ?data = "take (numOptions s) opts"
  have "length (filter selectedByUser ?data) \<le> 1"
    using assms(2) [OF r] filter_take_le [of selectedByUser "numOptions s" opts] by linarith
  moreover have "hasUserSelection (updateComponentOnDataRetrieval ?data s)
      \<or> length (filter selectedByUser ?data) = 0"
    by (auto simp: updateComponentOnDataRetrieval_locked filter_empty_conv)
  ultimately show ?thesis
    using r
    by (simp add: handleSuccessfulDataRetrieval_def single_selection_def selectedCount_def
          updateComponentOnDataRetrieval_frame)
qed

lemma handleTap_single:
  assumes "single_selection s"
  shows "single_selection (state_of (handleTap e s))"
proof (cases "hasUserSelection s \<or> e = None")
  case True
  then show ?thesis using assms by (auto simp: handleTap_def)
next
  case False
  then obtain optionEl where e: "e = Some optionEl" and open_: "\<not> hasUserSelection s"
    by auto
  have "single_selection (s\<lparr>reactions := reactions s @ [optionEl]\<rparr>)"
    using assms by (simp add: single_selection_def selectedCount_def)
  then show ?thesis
    using assms e open_
    by (simp add: handleTap_def handleOptionSelection_def on_resolved_single on_rejected_def
          selection_catch_single split: option.split promise.split)
qed

lemma step_single:
  assumes "single_selection s"
    and "\<And>r opts. e = Retrieved (Some r) \<Longrightarrow> options r = Some opts \<Longrightarrow>
           length (filter selectedByUser opts) \<le> 1"
  shows "single_selection (step e s)"
proof (cases e)
  case (Tap t)
  then show ?thesis using assms(1) by (simp add: handleTap_single)
next
  case (Retrieved response)
  then have "single_selection (handleSuccessfulDataRetrieval response s)"
    using assms by (intro handleSuccessfulDataRetrieval_single) auto
  then show ?thesis
    using Retrieved assms(1) by (simp add: settle_single)
next
  case RetrievalRejected
  then show ?thesis using assms(1) by (simp add: settle_single)
qed

lemma run_single:
  assumes "\<And>r opts. Retrieved (Some r) \<in> set events \<Longrightarrow> options r = Some opts \<Longrightarrow>
           length (filter selectedByUser opts) \<le> 1"
  shows "single_selection s \<Longrightarrow> single_selection (run events s)"
  using assms unfolding run_def
proof (induction events arbitrary: s)
  case Nil
  then show ?case by simp
next
  case (Cons e events)
  have "single_selection (step e s)"
    using Cons.prems by (intro step_single) auto
  then have "single_selection (fold step events (step e s))"
    using Cons.prems by (intro Cons.IH) auto
  then show ?case by simp
qed

text \<open>
  C9, as the code has it. The retrieved entries are stored as they come, so the property needs
  them to obey it: when no response among the events flags more than one entry, then after any
  sequence of taps, completed and rejected retrievals on a laid out widget at most one stored
  entry is flagged \<open>selectedByUser\<close>.
\<close>

theorem at_most_one_selected:
  assumes "\<forall>r opts. Retrieved (Some r) \<in> set events \<and> options r = Some opts \<longrightarrow>
             length (filter selectedByUser opts) \<le> 1"
  shows "selectedCount (run events (layoutCallback (constructed ep n))) \<le> 1"
proof -
  have "single_selection (layoutCallback (constructed ep n))"
    by (simp add: single_selection_def selectedCount_def layoutCallback_def constructed_def)
  then have "single_selection (run events (layoutCallback (constructed ep n)))"
    using assms by (intro run_single) auto
  then show ?thesis
    by (simp add: single_selection_def)
qed

theorem at_most_one_selected_witness:
  "selectedCount (run [Tap (Some 1), Retrieved (Some \<lparr>options = Some
          [\<lparr>optionIndex = 0, totalCount = 5, selectedByUser = False\<rparr>,
           \<lparr>optionIndex = 1, totalCount = 7, selectedByUser = False\<rparr>]\<rparr>), Tap (Some 0)]
        (layoutCallback (constructed (Some True) 2))) \<le> 1"
  using at_most_one_selected [of "[Tap (Some 1), Retrieved (Some \<lparr>options = Some
          [\<lparr>optionIndex = 0, totalCount = 5, selectedByUser = False\<rparr>,
           \<lparr>optionIndex = 1, totalCount = 7, selectedByUser = False\<rparr>]\<rparr>), Tap (Some 0)]"
        "Some True" 2]
  by simp

text \<open>
  The claim without that condition fails: a response that flags both of its entries is stored
  with both flags.
\<close>

theorem at_most_one_selected_counterexample:
  "selectedCount (run [Retrieved (Some \<lparr>options = Some
          [\<lparr>optionIndex = 0, totalCount = 5, selectedByUser = True\<rparr>,
           \<lparr>optionIndex = 1, totalCount = 7, selectedByUser = True\<rparr>]\<rparr>)]
        (layoutCallback (constructed (Some True) 2))) = 2"
  by (simp add: selectedCount_def run_def settle_def handleSuccessfulDataRetrieval_def
        updateComponentOnDataRetrieval_frame executeInteractiveRequest_GET_def layoutCallback_def
        constructed_def)

section \<open>Properties of the percentages\<close>

subsection \<open>Rounding\<close>

lemma fold_plus_sum_list:
  "fold (\<lambda>x acc. acc + f x) xs (a::nat) = a + sum_list (map f xs)"
  by (induction xs arbitrary: a) simp_all

lemma totalResponseCount_sum: "totalResponseCount od = sum_list (map totalCount od)"
  by (simp add: totalResponseCount_def fold_plus_sum_list)

lemma roundedTotal_sum: "roundedTotal percentages = sum_list (map Math_round percentages)"
  by (simp add: roundedTotal_def fold_plus_sum_list)

lemma toFixed2_upper:
  assumes "0 < b"
  shows "2 * b * toFixed2 up a b \<le> 200 * a + b"
proof -
  define n r t where "n = (100 * a) div b" and "r = (100 * a) mod b" and "t = toFixed2 up a b"
  have "b * n + r = 100 * a"
    unfolding n_def r_def by (rule mult_div_mod_eq)
  then have split: "200 * a = 2 * (b * n) + 2 * r"
    by linarith
  have fixed: "t = (if 2 * r < b then n else if b < 2 * r then n + 1
      else if up a b then n + 1 else n)"
    by (simp add: t_def toFixed2_def Let_def n_def r_def)
  consider (down) "t = n" | (up) "t = n + 1" and "b \<le> 2 * r"
    using fixed by (auto split: if_splits)
  then have "2 * (b * t) \<le> 2 * (b * n) + 2 * r + b"
  proof cases
    case down
    then show ?thesis by simp
  next
    case up
    then have "2 * (b * t) = 2 * (b * n) + 2 * b"
      by (simp add: algebra_simps)
    then show ?thesis
      using up(2) by linarith
  qed
  then show ?thesis
    using split by (simp add: t_def mult.assoc)
qed

lemma toFixed2_hundredths: "toFixed2 up k 100 = k"
  by (simp add: toFixed2_def)

lemma adjust_eq: "adjust up p = 100 * (p div 100) + (p mod 100 + 1) div 3"
proof -
  define F f where "F = p div 100" and "f = p mod 100"
  have p: "p = 100 * F + f" and f: "f < 100"
    by (simp_all add: F_def f_def)
  have arg: "3 * p - 2 * (p - 100 * Math_floor p) = 300 * F + f"
    by (simp add: Math_floor_def F_def [symmetric]) (simp add: p)
  define q m where "q = f div 3" and "m = f mod 3"
  have "f = 3 * q + m" and "m < 3"
    by (simp_all add: q_def m_def)
  then have e: "100 * (300 * F + f) = 300 * (100 * F + q) + 100 * m" and small: "100 * m < 300"
    by simp_all
  have "(300 * (100 * F + q) + 100 * m) div 300 = (100 * F + q) + (100 * m) div 300"
    by (rule div_mult_self4) simp
  moreover have "(300 * (100 * F + q) + 100 * m) mod 300 = (100 * m) mod 300"
    by (rule mod_mult_self4)
  ultimately have d: "(100 * (300 * F + f)) div 300 = 100 * F + f div 3"
    and m: "(100 * (300 * F + f)) mod 300 = 100 * (f mod 3)"
    unfolding e using small by (simp_all only: div_less mod_less add_0_right q_def m_def)
  have third: "(f + 1) div 3 = f div 3 + (if f mod 3 = 2 then 1 else 0)"
    by presburger
  have cases: "f mod 3 = 0 \<or> f mod 3 = 1 \<or> f mod 3 = 2"
    by presburger
  have "toFixed2 up (300 * F + f) 300 = 100 * F + (f + 1) div 3"
    unfolding toFixed2_def Let_def d m third
    using cases by auto
  then show ?thesis
    by (simp add: adjust_def arg F_def f_def)
qed

lemma third_of_fraction: "((p::nat) mod 100 + 1) div 3 \<le> 33"
proof -
  have "p mod 100 + 1 \<le> 100"
    by (simp add: Suc_leI)
  then have "(p mod 100 + 1) div 3 \<le> 100 div 3"
    by (rule div_le_mono)
  then show ?thesis by simp
qed

lemma Math_floor_adjust: "Math_floor (adjust up p) = Math_floor p"
proof -
  have "(p mod 100 + 1) div 3 < 100"
    using third_of_fraction [of p] by linarith
  then show ?thesis
    by (simp add: adjust_eq Math_floor_def)
qed

lemma Math_round_adjust: "Math_round (adjust up p) = Math_floor p"
proof -
  have "(p mod 100 + 1) div 3 + 50 < 100"
    using third_of_fraction [of p] by linarith
  then show ?thesis
    by (simp add: adjust_eq Math_floor_def Math_round_def add.assoc)
qed

lemma Math_floor_le_round: "Math_floor p \<le> Math_round p"
  by (simp add: Math_floor_def Math_round_def div_le_mono)

lemma sum_list_floor_le_round:
  "sum_list (map Math_floor ps) \<le> sum_list (map Math_round ps)"
  by (rule sum_list_mono) (simp add: Math_floor_le_round)

subsection \<open>The entries and their order\<close>

lemma mset_insert_entry: "mset (insert_entry x xs) = add_mset x (mset xs)"
  by (induction xs) simp_all

lemma mset_sort_entries: "mset (sort_entries xs) = mset xs"
  unfolding sort_entries_def by (induction xs) (simp_all add: mset_insert_entry)

lemma remainder_eq: "toFixed2 up (p - 100 * Math_floor p) 100 = p mod 100"
proof -
  have "p - 100 * Math_floor p = p mod 100"
    unfolding Math_floor_def by (rule minus_mult_div_eq_mod)
  then show ?thesis
    by (simp only: toFixed2_hundredths)
qed

lemma preserve_eq:
  "preserve up ps = map (\<lambda>i. Entry i (ps ! i) (ps ! i mod 100)) [0..<length ps]"
proof (rule nth_equalityI)
  show "length (preserve up ps) = length (map (\<lambda>i. Entry i (ps ! i) (ps ! i mod 100)) [0..<length ps])"
    by (simp add: preserve_def)
  show "preserve up ps ! i = map (\<lambda>i. Entry i (ps ! i) (ps ! i mod 100)) [0..<length ps] ! i"
    if "i < length (preserve up ps)" for i
    using that by (simp add: preserve_def nth_enumerate_eq remainder_eq)
qed

subsection \<open>The loop\<close>

lemma rounded_with_cong:
  "(\<And>q. q \<in> set qs \<Longrightarrow> g (pvalue q) = g' (pvalue q)) \<Longrightarrow> rounded_with g qs = rounded_with g' qs"
  by (simp add: rounded_with_def)

lemma rounded_with_append: "rounded_with g (qs @ rs) = rounded_with g qs @ rounded_with g rs"
  by (simp add: rounded_with_def)

lemma while_loop_budget:
  assumes "\<forall>q\<in>set po. remainder q = pvalue q mod 100"
  shows "\<exists>g qs rem' rest.
           while_loop rem po acc = (rem', rest, acc @ rounded_with g qs)
         \<and> mset qs + mset rest = mset po
         \<and> (\<forall>v. g v \<le> 1)
         \<and> (\<forall>q\<in>set qs. \<forall>q'\<in>set rest. pvalue q \<noteq> pvalue q')
         \<and> (\<forall>q\<in>set qs. g (pvalue q) = 1 \<longrightarrow> pvalue q mod 100 \<noteq> 0)
         \<and> int (sum_list (map (\<lambda>q. g (pvalue q)) qs)) \<le> max rem 0
         \<and> \<not> (0 < rem' \<and> rest \<noteq> [])
         \<and> rem' = rem - int (sum_list (map (\<lambda>q. g (pvalue q)) qs))
         \<and> (\<forall>q\<in>set qs. g (pvalue q) = 0 \<longrightarrow>
               pvalue q mod 100 = 0
             \<or> rem' < int (length (filter (\<lambda>percentageObj. pvalue percentageObj = pvalue q) po)))"
  using assms
proof (induction rem po acc rule: while_loop.induct)
  case (1 rem po acc)
  show ?case
  proof (cases "0 < rem \<and> po \<noteq> []")
    case False
    then have "while_loop rem po acc = (rem, po, acc @ rounded_with (\<lambda>v. 0) [])"
      by (simp add: while_loop.simps rounded_with_def)
    moreover have "\<not> (0 < rem \<and> po \<noteq> [])"
      using False .
    ultimately show ?thesis
      by (intro exI [of _ "\<lambda>v. 0"] exI [of _ "[]"] exI [of _ rem] exI [of _ po]) simp
  next
    case True
    let ?h = "hd po"
    let ?ties = "filter (\<lambda>percentageObj. pvalue percentageObj = pvalue ?h) po"
    let ?rest = "filter (\<lambda>percentageObj. pvalue percentageObj \<noteq> pvalue ?h) po"
    let ?up = "int (length ?ties) \<le> rem \<and> remainder ?h \<noteq> 0"
    let ?rem = "rem - (if ?up then int (length ?ties) else 0)"
    let ?b = "if ?up then 1 else 0 :: nat"
    let ?acc = "acc @ map (\<lambda>percentageObj. (originalIndex percentageObj,
                     Math_floor (pvalue percentageObj) + ?b)) ?ties"
    have unfold: "while_loop rem po acc = while_loop ?rem ?rest ?acc"
      using True by (subst while_loop.simps) (simp add: Let_def)
    have "\<forall>q\<in>set ?rest. remainder q = pvalue q mod 100"
      using "1.prems" by simp
    from "1.IH" [OF True refl refl refl refl this]
    obtain g1 qs1 rem' rest' where
      loop: "while_loop ?rem ?rest ?acc = (rem', rest', ?acc @ rounded_with g1 qs1)"
      and parts: "mset qs1 + mset rest' = mset ?rest"
      and small: "\<forall>v. g1 v \<le> 1"
      and apart: "\<forall>q\<in>set qs1. \<forall>q'\<in>set rest'. pvalue q \<noteq> pvalue q'"
      and nonzero: "\<forall>q\<in>set qs1. g1 (pvalue q) = 1 \<longrightarrow> pvalue q mod 100 \<noteq> 0"
      and budget: "int (sum_list (map (\<lambda>q. g1 (pvalue q)) qs1)) \<le> max ?rem 0"
      and exit: "\<not> (0 < rem' \<and> rest' \<noteq> [])"
      and left: "rem' = ?rem - int (sum_list (map (\<lambda>q. g1 (pvalue q)) qs1))"
      and kept: "\<forall>q\<in>set qs1. g1 (pvalue q) = 0 \<longrightarrow>
               pvalue q mod 100 = 0
             \<or> rem' < int (length (filter (\<lambda>percentageObj. pvalue percentageObj = pvalue q) ?rest))"
      by blast
    define g where "g = g1(pvalue ?h := ?b)"
    have sub1: "set qs1 \<subseteq> set ?rest" and sub2: "set rest' \<subseteq> set ?rest"
      using parts by (metis mset_subset_eqD mset_subset_eq_add_left subsetI in_multiset_in_set,
          metis mset_subset_eqD mset_subset_eq_add_right subsetI in_multiset_in_set)
    have g_ties: "g (pvalue q) = ?b" if "q \<in> set ?ties" for q
      using that by (simp add: g_def)
    have g_qs1: "g (pvalue q) = g1 (pvalue q)" if "q \<in> set qs1" for q
      using that sub1 by (auto simp: g_def)
    have ties_written: "map (\<lambda>percentageObj. (originalIndex percentageObj,
                     Math_floor (pvalue percentageObj) + ?b)) ?ties = rounded_with g ?ties"
      unfolding rounded_with_def by (rule map_cong [OF refl]) (simp add: g_def)
    have same: "rounded_with g1 qs1 = rounded_with g qs1"
      by (rule rounded_with_cong) (simp add: g_qs1)
    have final: "?acc @ rounded_with g1 qs1 = acc @ rounded_with g (?ties @ qs1)"
      unfolding ties_written same by (simp add: rounded_with_append)
    have result: "while_loop rem po acc = (rem', rest', acc @ rounded_with g (?ties @ qs1))"
      by (simp only: unfold loop final)
    have "mset ?ties + mset ?rest = mset po"
      by (simp add: multiset_partition [symmetric])
    then have parts': "mset (?ties @ qs1) + mset rest' = mset po"
      using parts by (simp add: add.assoc)
    have small': "\<forall>v. g v \<le> 1"
      using small by (simp add: g_def)
    have apart': "\<forall>q\<in>set (?ties @ qs1). \<forall>q'\<in>set rest'. pvalue q \<noteq> pvalue q'"
      using apart sub2 by auto
    have head: "remainder ?h = pvalue ?h mod 100"
      using True "1.prems" by simp
    have nonzero': "\<forall>q\<in>set (?ties @ qs1). g (pvalue q) = 1 \<longrightarrow> pvalue q mod 100 \<noteq> 0"
    proof (intro ballI impI)
      fix q
      assume q: "q \<in> set (?ties @ qs1)" and one: "g (pvalue q) = 1"
      show "pvalue q mod 100 \<noteq> 0"
      proof (cases "q \<in> set ?ties")
        case True
        then have "?b = 1"
          using g_ties [OF True] one by simp
        then have "remainder ?h \<noteq> 0"
          by (simp split: if_splits)
        moreover have "pvalue q = pvalue ?h"
          using True by simp
        ultimately show ?thesis
          using head by simp
      next
        case False
        then have "q \<in> set qs1"
          using q by auto
        then show ?thesis
          using nonzero g_qs1 one by simp
      qed
    qed
    have "sum_list (map (\<lambda>q. g (pvalue q)) ?ties) = sum_list (map (\<lambda>q. ?b) ?ties)"
      by (rule arg_cong [where f = sum_list], rule map_cong [OF refl]) (simp add: g_def)
    also have "\<dots> = length ?ties * ?b"
      by (simp add: sum_list_triv)
    finally have spent: "int (sum_list (map (\<lambda>q. g (pvalue q)) ?ties))
        = (if ?up then int (length ?ties) else 0)"
      by simp
    have "sum_list (map (\<lambda>q. g (pvalue q)) qs1) = sum_list (map (\<lambda>q. g1 (pvalue q)) qs1)"
      by (rule arg_cong [where f = sum_list], rule map_cong [OF refl]) (simp add: g_qs1)
    then have same_sum: "sum_list (map (\<lambda>q. g (pvalue q)) qs1)
        = sum_list (map (\<lambda>q. g1 (pvalue q)) qs1)" .
    have left': "rem' = rem - int (sum_list (map (\<lambda>q. g (pvalue q)) (?ties @ qs1)))"
      using left spent same_sum by simp
    have lower: "rem' \<le> rem"
      using left' by simp
    have kept': "\<forall>q\<in>set (?ties @ qs1). g (pvalue q) = 0 \<longrightarrow>
               pvalue q mod 100 = 0
             \<or> rem' < int (length (filter (\<lambda>percentageObj. pvalue percentageObj = pvalue q) po))"
    proof (intro ballI impI)
      fix q
      assume q: "q \<in> set (?ties @ qs1)" and zero: "g (pvalue q) = 0"
      show "pvalue q mod 100 = 0
             \<or> rem' < int (length (filter (\<lambda>percentageObj. pvalue percentageObj = pvalue q) po))"
      proof (cases "q \<in> set ?ties")
        case True
        then have same: "pvalue q = pvalue ?h"
          by simp
        have "?b = 0"
          using g_ties [OF True] zero by simp
        then have "\<not> ?up"
          by (simp split: if_splits)
        then have "rem < int (length ?ties) \<or> remainder ?h = 0"
          by auto
        then show ?thesis
        proof
          assume "rem < int (length ?ties)"
          then have "rem' < int (length ?ties)"
            using lower by linarith
          then show ?thesis
            unfolding same by (rule disjI2)
        next
          assume "remainder ?h = 0"
          then show ?thesis
            using head same by simp
        qed
      next
        case False
        then have member: "q \<in> set qs1"
          using q by auto
        then have "g1 (pvalue q) = 0"
          using g_qs1 zero by simp
        then have "pvalue q mod 100 = 0
             \<or> rem' < int (length (filter (\<lambda>percentageObj. pvalue percentageObj = pvalue q) ?rest))"
          using kept member by blast
        moreover have "length (filter (\<lambda>percentageObj. pvalue percentageObj = pvalue q) ?rest)
            \<le> length (filter (\<lambda>percentageObj. pvalue percentageObj = pvalue q) po)"
        proof -
          have "filter (\<lambda>percentageObj. pvalue percentageObj = pvalue q) ?rest
              = filter (\<lambda>percentageObj. pvalue percentageObj \<noteq> pvalue ?h)
                  (filter (\<lambda>percentageObj. pvalue percentageObj = pvalue q) po)"
            by (simp only: filter_filter conj_commute)
          then show ?thesis
            by (simp only: length_filter_le)
        qed
        ultimately show ?thesis
          by linarith
      qed
    qed
    have "int (sum_list (map (\<lambda>q. g (pvalue q)) (?ties @ qs1)))
        \<le> (if ?up then int (length ?ties) else 0) + max ?rem 0"
      using budget spent same_sum by simp
    also have "\<dots> \<le> max rem 0"
      using True by auto
    finally have budget': "int (sum_list (map (\<lambda>q. g (pvalue q)) (?ties @ qs1))) \<le> max rem 0" .
    show ?thesis
      using result parts' small' apart' nonzero' budget' exit left' kept' by blast
  qed
qed

subsection \<open>The assignments and the array they build\<close>

lemma assignments_budget:
  "\<exists>g u. (\<forall>v. g v \<le> 1)
       \<and> mset (assignments up ps rem)
           = mset (map (\<lambda>i. (i, Math_floor (ps ! i) + g (ps ! i))) [0..<length ps])
       \<and> (\<forall>p\<in>set ps. g p = 1 \<longrightarrow> p mod 100 \<noteq> 0)
       \<and> int (sum_list (map g ps)) \<le> max rem 0
       \<and> u = rem - int (sum_list (map g ps))
       \<and> (0 < u \<longrightarrow>
            (\<forall>p\<in>set ps. g p = 0 \<longrightarrow>
               p mod 100 = 0 \<or> u < int (length (filter (\<lambda>x. x = p) ps))))"
proof -
  let ?po = "sort_entries (preserve up ps)"
  have entries: "mset ?po = mset (map (\<lambda>i. Entry i (ps ! i) (ps ! i mod 100)) [0..<length ps])"
    by (simp only: mset_sort_entries preserve_eq)
  then have "set ?po = set (map (\<lambda>i. Entry i (ps ! i) (ps ! i mod 100)) [0..<length ps])"
    by (rule mset_eq_setD)
  then have wf: "\<forall>q\<in>set ?po. remainder q = pvalue q mod 100"
    by auto
  from while_loop_budget [OF wf, of rem "[]", unfolded append_Nil]
  obtain g qs rem' rest where
    loop: "while_loop rem ?po [] = (rem', rest, rounded_with g qs)"
    and parts: "mset qs + mset rest = mset ?po"
    and small: "\<forall>v. g v \<le> 1"
    and apart: "\<forall>q\<in>set qs. \<forall>q'\<in>set rest. pvalue q \<noteq> pvalue q'"
    and nonzero: "\<forall>q\<in>set qs. g (pvalue q) = 1 \<longrightarrow> pvalue q mod 100 \<noteq> 0"
    and budget: "int (sum_list (map (\<lambda>q. g (pvalue q)) qs)) \<le> max rem 0"
    and exit: "\<not> (0 < rem' \<and> rest \<noteq> [])"
    and left: "rem' = rem - int (sum_list (map (\<lambda>q. g (pvalue q)) qs))"
    and kept: "\<forall>q\<in>set qs. g (pvalue q) = 0 \<longrightarrow>
               pvalue q mod 100 = 0
             \<or> rem' < int (length (filter (\<lambda>percentageObj. pvalue percentageObj = pvalue q) ?po))"
    by blast
  define g' where "g' v = (if v \<in> pvalue ` set rest then 0 else g v)" for v
  have g'_qs: "g' (pvalue q) = g (pvalue q)" if "q \<in> set qs" for q
    using that apart by (auto simp: g'_def)
  have g'_rest: "g' (pvalue q) = 0" if "q \<in> set rest" for q
    using that by (simp add: g'_def)
  let ?F = "\<lambda>q. (originalIndex q, Math_floor (pvalue q) + g' (pvalue q))"
  have "rounded_with g qs = map ?F qs"
    unfolding rounded_with_def by (rule map_cong [OF refl]) (simp add: g'_qs)
  moreover have "map (\<lambda>percentageObj. (originalIndex percentageObj, Math_floor (pvalue percentageObj))) rest
      = map ?F rest"
    by (rule map_cong [OF refl]) (simp add: g'_rest)
  ultimately have "assignments up ps rem = map ?F (qs @ rest)"
    by (simp add: assignments_def loop)
  then have "mset (assignments up ps rem) = image_mset ?F (mset qs + mset rest)"
    by simp
  also have "\<dots> = image_mset ?F (mset (map (\<lambda>i. Entry i (ps ! i) (ps ! i mod 100)) [0..<length ps]))"
    by (simp only: parts entries)
  also have "\<dots> = mset (map (\<lambda>i. (i, Math_floor (ps ! i) + g' (ps ! i))) [0..<length ps])"
    by (simp add: image_mset.compositionality comp_def)
  finally have written: "mset (assignments up ps rem)
      = mset (map (\<lambda>i. (i, Math_floor (ps ! i) + g' (ps ! i))) [0..<length ps])" .
  have small': "\<forall>v. g' v \<le> 1"
    using small by (simp add: g'_def)
  have pvalues: "image_mset pvalue (mset qs + mset rest) = mset ps"
  proof -
    have "image_mset pvalue (mset qs + mset rest)
        = image_mset pvalue (mset (map (\<lambda>i. Entry i (ps ! i) (ps ! i mod 100)) [0..<length ps]))"
      by (simp only: parts entries)
    also have "\<dots> = mset (map (\<lambda>i. ps ! i) [0..<length ps])"
      by (simp add: image_mset.compositionality comp_def)
    also have "\<dots> = mset ps"
      by (simp add: map_nth)
    finally show ?thesis .
  qed
  have nonzero': "\<forall>p\<in>set ps. g' p = 1 \<longrightarrow> p mod 100 \<noteq> 0"
  proof (intro ballI impI)
    fix p
    assume "p \<in> set ps" and one: "g' p = 1"
    then have "p \<in># image_mset pvalue (mset qs + mset rest)"
      by (simp only: pvalues) simp
    then obtain q where q: "q \<in> set qs \<or> q \<in> set rest" and p: "p = pvalue q"
      by auto
    have "q \<in> set qs"
      using q one g'_rest p by auto
    then show "p mod 100 \<noteq> 0"
      using nonzero g'_qs one p by simp
  qed
  have "sum_list (map g' ps) = sum_mset (image_mset g' (mset ps))"
    by (simp add: sum_mset_sum_list [symmetric])
  also have "\<dots> = sum_mset (image_mset g' (image_mset pvalue (mset qs + mset rest)))"
    by (simp only: pvalues)
  also have "\<dots> = sum_list (map (\<lambda>q. g' (pvalue q)) qs) + sum_list (map (\<lambda>q. g' (pvalue q)) rest)"
    by (simp add: image_mset.compositionality comp_def sum_mset_sum_list [symmetric])
  also have "sum_list (map (\<lambda>q. g' (pvalue q)) qs) = sum_list (map (\<lambda>q. g (pvalue q)) qs)"
    by (rule arg_cong [where f = sum_list], rule map_cong [OF refl]) (simp add: g'_qs)
  also have "sum_list (map (\<lambda>q. g' (pvalue q)) rest) = sum_list (map (\<lambda>q. 0) rest)"
    by (rule arg_cong [where f = sum_list], rule map_cong [OF refl]) (simp add: g'_rest)
  finally have sums: "sum_list (map g' ps) = sum_list (map (\<lambda>q. g (pvalue q)) qs)"
    by simp
  then have budget': "int (sum_list (map g' ps)) \<le> max rem 0"
    using budget by simp
  have left': "rem' = rem - int (sum_list (map g' ps))"
    using left sums by simp
  have group: "length (filter (\<lambda>percentageObj. pvalue percentageObj = p) ?po)
      = length (filter (\<lambda>x. x = p) ps)" for p
  proof -
    have "mset (map pvalue ?po) = mset ps"
      using pvalues parts by simp
    then have "mset (filter (\<lambda>x. x = p) (map pvalue ?po)) = mset (filter (\<lambda>x. x = p) ps)"
      by (simp only: mset_filter)
    then have "length (filter (\<lambda>x. x = p) (map pvalue ?po)) = length (filter (\<lambda>x. x = p) ps)"
      by (rule mset_eq_length)
    then show ?thesis
      by (simp add: filter_map comp_def)
  qed
  have kept': "\<forall>p\<in>set ps. g' p = 0 \<longrightarrow>
               p mod 100 = 0 \<or> rem' < int (length (filter (\<lambda>x. x = p) ps))"
    if "0 < rem'"
  proof (intro ballI impI)
    fix p
    assume "p \<in> set ps" and zero: "g' p = 0"
    have "rest = []"
      using exit that by simp
    from \<open>p \<in> set ps\<close> have "p \<in># image_mset pvalue (mset qs + mset rest)"
      by (simp only: pvalues) simp
    then obtain q where q: "q \<in> set qs" and p: "p = pvalue q"
      using \<open>rest = []\<close> by auto
    have "g (pvalue q) = 0"
      using g'_qs [OF q] zero p by simp
    then have "pvalue q mod 100 = 0
        \<or> rem' < int (length (filter (\<lambda>percentageObj. pvalue percentageObj = pvalue q) ?po))"
      using kept q by blast
    then show "p mod 100 = 0 \<or> rem' < int (length (filter (\<lambda>x. x = p) ps))"
      by (simp only: p group)
  qed
  show ?thesis
    using small' written nonzero' budget' left' kept' by blast
qed

lemma assignments_groups:
  "\<exists>g. (\<forall>v. g v \<le> 1)
       \<and> mset (assignments up ps rem)
           = mset (map (\<lambda>i. (i, Math_floor (ps ! i) + g (ps ! i))) [0..<length ps])
       \<and> (\<forall>p\<in>set ps. g p = 1 \<longrightarrow> p mod 100 \<noteq> 0)
       \<and> int (sum_list (map g ps)) \<le> max rem 0"
  using assignments_budget [of up ps rem] by blast

lemma length_assign: "length (assign w a) = max (length a) (Suc (fst w))"
  by (auto simp: assign_def)

lemma nth_assign_same: "assign w a ! fst w = Number (snd w)"
  by (auto simp: assign_def nth_append)

lemma nth_assign_other: "i < length a \<Longrightarrow> i \<noteq> fst w \<Longrightarrow> assign w a ! i = a ! i"
  by (auto simp: assign_def nth_append)

lemma fold_assign_untouched:
  "i < length a \<Longrightarrow> i \<notin> fst ` set ws \<Longrightarrow>
   i < length (fold assign ws a) \<and> fold assign ws a ! i = a ! i"
proof (induction ws arbitrary: a)
  case Nil
  then show ?case by simp
next
  case (Cons w ws)
  have "i < length (assign w a)" and "assign w a ! i = a ! i"
    using Cons.prems by (simp_all add: length_assign nth_assign_other)
  moreover have "i \<notin> fst ` set ws"
    using Cons.prems by simp
  ultimately show ?case
    using Cons.IH [of "assign w a"] by simp
qed

lemma fold_assign_written:
  "i \<in> fst ` set ws \<Longrightarrow>
   i < length (fold assign ws a) \<and> (\<exists>v. (i, v) \<in> set ws \<and> fold assign ws a ! i = Number v)"
proof (induction ws arbitrary: a)
  case Nil
  then show ?case by simp
next
  case (Cons w ws)
  show ?case
  proof (cases "i \<in> fst ` set ws")
    case True
    then show ?thesis
      using Cons.IH [of "assign w a"] by auto
  next
    case False
    then have i: "i = fst w"
      using Cons.prems by auto
    have "i < length (assign w a)" and "assign w a ! i = Number (snd w)"
      by (simp_all add: i length_assign nth_assign_same)
    then have "i < length (fold assign ws (assign w a))"
      and "fold assign ws (assign w a) ! i = Number (snd w)"
      using fold_assign_untouched [OF _ False, of "assign w a"] by simp_all
    moreover have "(i, snd w) \<in> set (w # ws)"
      by (simp add: i)
    ultimately show ?thesis
      by auto
  qed
qed

lemma length_fold_assign:
  "\<forall>w\<in>set ws. fst w < k \<Longrightarrow> length a \<le> k \<Longrightarrow> length (fold assign ws a) \<le> k"
  by (induction ws arbitrary: a) (simp_all add: length_assign)

lemma fold_assign_permutation:
  assumes "mset ws = mset (map (\<lambda>i. (i, f i)) [0..<n])"
  shows "fold assign ws [] = map (\<lambda>i. Number (f i)) [0..<n]"
proof (rule nth_equalityI)
  have elems: "set ws = (\<lambda>i. (i, f i)) ` {0..<n}"
    using mset_eq_setD [OF assms] by simp
  then have "\<forall>w\<in>set ws. fst w < n"
    by auto
  then have upper: "length (fold assign ws []) \<le> n"
    by (rule length_fold_assign) simp
  have position: "i < length (fold assign ws []) \<and> fold assign ws [] ! i = Number (f i)"
    if "i < n" for i
  proof -
    have "i \<in> fst ` set ws"
      using that elems by force
    from fold_assign_written [OF this, of "[]"]
    obtain v where "i < length (fold assign ws [])" and "(i, v) \<in> set ws"
      and "fold assign ws [] ! i = Number v"
      by blast
    moreover have "v = f i"
      using \<open>(i, v) \<in> set ws\<close> elems by auto
    ultimately show ?thesis by simp
  qed
  have "n \<le> length (fold assign ws [])"
  proof (cases n)
    case 0
    then show ?thesis by simp
  next
    case (Suc m)
    then show ?thesis
      using position [of m] by simp
  qed
  then show "length (fold assign ws []) = length (map (\<lambda>i. Number (f i)) [0..<n])"
    using upper by simp
  show "fold assign ws [] ! i = map (\<lambda>i. Number (f i)) [0..<n] ! i"
    if "i < length (fold assign ws [])" for i
    using that upper position [of i] by simp
qed

lemma finalPercentages_budget:
  "\<exists>g u. (\<forall>v. g v \<le> 1)
       \<and> finalPercentages up ps rem = map (\<lambda>p. Number (Math_floor p + g p)) ps
       \<and> (\<forall>p\<in>set ps. g p = 1 \<longrightarrow> p mod 100 \<noteq> 0)
       \<and> int (sum_list (map g ps)) \<le> max rem 0
       \<and> u = rem - int (sum_list (map g ps))
       \<and> (0 < u \<longrightarrow>
            (\<forall>p\<in>set ps. g p = 0 \<longrightarrow>
               p mod 100 = 0 \<or> u < int (length (filter (\<lambda>x. x = p) ps))))"
proof -
  from assignments_budget [of up ps rem]
  obtain g u where small: "\<forall>v. g v \<le> 1"
    and written: "mset (assignments up ps rem)
           = mset (map (\<lambda>i. (i, Math_floor (ps ! i) + g (ps ! i))) [0..<length ps])"
    and nonzero: "\<forall>p\<in>set ps. g p = 1 \<longrightarrow> p mod 100 \<noteq> 0"
    and budget: "int (sum_list (map g ps)) \<le> max rem 0"
    and left: "u = rem - int (sum_list (map g ps))"
    and kept: "0 < u \<longrightarrow>
            (\<forall>p\<in>set ps. g p = 0 \<longrightarrow>
               p mod 100 = 0 \<or> u < int (length (filter (\<lambda>x. x = p) ps)))"
    by blast
  have "finalPercentages up ps rem
      = map (\<lambda>i. Number (Math_floor (ps ! i) + g (ps ! i))) [0..<length ps]"
    unfolding finalPercentages_def using written by (rule fold_assign_permutation)
  also have "\<dots> = map (\<lambda>p. Number (Math_floor p + g p)) (map (\<lambda>i. ps ! i) [0..<length ps])"
    by (simp only: map_map comp_def)
  also have "\<dots> = map (\<lambda>p. Number (Math_floor p + g p)) ps"
    by (simp only: map_nth)
  finally show ?thesis
    using small nonzero budget left kept by blast
qed

lemma finalPercentages_groups:
  "\<exists>g. (\<forall>v. g v \<le> 1)
       \<and> finalPercentages up ps rem = map (\<lambda>p. Number (Math_floor p + g p)) ps
       \<and> (\<forall>p\<in>set ps. g p = 1 \<longrightarrow> p mod 100 \<noteq> 0)
       \<and> int (sum_list (map g ps)) \<le> max rem 0"
  using finalPercentages_budget [of up ps rem] by blast

subsection \<open>The whole function\<close>

lemma floor_share:
  assumes "0 < t"
  shows "199 * (t * Math_floor (toFixed2 up (100 * c) t)) \<le> 20000 * c"
proof -
  define h F where "h = toFixed2 up (100 * c) t" and "F = Math_floor h"
  have "100 * F \<le> h"
    by (simp add: F_def Math_floor_def)
  then have "t * (100 * F) \<le> t * h"
    by (rule mult_le_mono2)
  then have "2 * (t * (100 * F)) \<le> 2 * (t * h)"
    by (rule mult_le_mono2)
  also have "\<dots> \<le> 20000 * c + t"
    using toFixed2_upper [OF assms, of up "100 * c"] by (simp add: h_def mult.assoc)
  finally have bound: "200 * (t * F) \<le> 20000 * c + t"
    by (simp add: mult.left_commute)
  show ?thesis
  proof (cases "F = 0")
    case True
    then show ?thesis by (simp add: F_def h_def)
  next
    case False
    then have "t \<le> t * F"
      by (cases F) simp_all
    then have "199 * (t * F) \<le> 20000 * c"
      using bound by linarith
    then show ?thesis by (simp add: F_def h_def)
  qed
qed

lemma floors_of_raw:
  assumes "0 < totalResponseCount od"
  shows "sum_list (map Math_floor (rawPercentages up od)) \<le> 100"
proof -
  let ?t = "totalResponseCount od"
  let ?F = "\<lambda>e. Math_floor (toFixed2 up (100 * totalCount e) ?t)"
  have "sum_list (map (\<lambda>e. 199 * (?t * ?F e)) od) \<le> sum_list (map (\<lambda>e. 20000 * totalCount e) od)"
    by (rule sum_list_mono) (simp add: floor_share [OF assms])
  also have "\<dots> = 20000 * ?t"
    by (simp add: totalResponseCount_sum sum_list_const_mult)
  finally have "?t * (199 * sum_list (map ?F od)) \<le> ?t * 20000"
    by (simp add: sum_list_const_mult mult.left_commute mult.commute)
  then have "199 * sum_list (map ?F od) \<le> 20000"
    using assms by simp
  then have "sum_list (map ?F od) \<le> 100"
    by simp
  then show ?thesis
    by (simp add: rawPercentages_def comp_def)
qed

lemma preprocessPercentages_steps:
  assumes "0 < totalResponseCount od"
  shows "preprocessPercentages up od = distribute up (correctedPercentages up od)"
  using assms
  by (simp add: preprocessPercentages_def correctedPercentages_def distribute_def Let_def)

lemma floors_of_corrected:
  assumes "0 < totalResponseCount od"
  shows "sum_list (map Math_floor (correctedPercentages up od)) \<le> 100"
  using floors_of_raw [OF assms, of up]
  by (simp add: correctedPercentages_def comp_def Math_floor_adjust)

lemma Math_round_groups:
  "Math_round p = Math_floor p + (if 50 \<le> p mod 100 then 1 else 0)"
proof -
  have "p + 50 = p div 100 * 100 + (p mod 100 + 50)"
    by simp
  then have "(p + 50) div 100 = p div 100 + (p mod 100 + 50) div 100"
    by (simp only: div_mult_self3 [of 100 "p div 100" "p mod 100 + 50"])
  moreover have "(p mod 100 + 50) div 100 = (if 50 \<le> p mod 100 then 1 else 0)"
  proof (cases "50 \<le> p mod 100")
    case True
    have "p mod 100 + 50 < 2 * 100"
      by simp
    moreover have "1 * 100 \<le> p mod 100 + 50"
      using True by simp
    ultimately have "(p mod 100 + 50) div 100 = 1"
      by (intro div_nat_eqI) simp_all
    then show ?thesis using True by simp
  next
    case False
    then show ?thesis by simp
  qed
  ultimately show ?thesis
    by (simp add: Math_round_def Math_floor_def)
qed

lemma distribute_groups:
  "\<exists>g. (\<forall>v. g v \<le> 1)
       \<and> distribute up ps = map (\<lambda>p. Number (Math_floor p + g p)) ps
       \<and> (\<forall>p\<in>set ps. g p = 1 \<longrightarrow> p mod 100 \<noteq> 0)
       \<and> int (sum_list (map Math_floor ps) + sum_list (map g ps))
           \<le> max 100 (int (sum_list (map Math_floor ps)))"
proof (cases "roundedTotal ps = 100")
  case True
  let ?g = "\<lambda>p. if 50 \<le> p mod 100 then 1 else 0 :: nat"
  have "distribute up ps = map (\<lambda>p. Number (Math_floor p + ?g p)) ps"
    using True by (simp add: distribute_def Math_round_groups)
  moreover have "map Math_round ps = map (\<lambda>p. Math_floor p + ?g p) ps"
    by (rule map_cong [OF refl]) (rule Math_round_groups)
  then have "sum_list (map Math_floor ps) + sum_list (map ?g ps) = roundedTotal ps"
    by (simp only: roundedTotal_sum sum_list_addf)
  ultimately show ?thesis
    using True by (intro exI [of _ ?g]) auto
next
  case False
  let ?rem = "100 - int (roundedTotal ps)"
  from finalPercentages_groups [of up ps ?rem]
  obtain g where small: "\<forall>v. g v \<le> 1"
    and final: "finalPercentages up ps ?rem = map (\<lambda>p. Number (Math_floor p + g p)) ps"
    and nonzero: "\<forall>p\<in>set ps. g p = 1 \<longrightarrow> p mod 100 \<noteq> 0"
    and budget: "int (sum_list (map g ps)) \<le> max ?rem 0"
    by blast
  have "sum_list (map Math_floor ps) \<le> roundedTotal ps"
    by (simp add: roundedTotal_sum sum_list_floor_le_round)
  then have "int (sum_list (map Math_floor ps) + sum_list (map g ps))
      \<le> max 100 (int (sum_list (map Math_floor ps)))"
    using budget by auto
  moreover have "distribute up ps = map (\<lambda>p. Number (Math_floor p + g p)) ps"
    using False final by (simp add: distribute_def)
  ultimately show ?thesis
    using small nonzero by blast
qed

subsection \<open>Length, range and sum of the result\<close>

lemma roundedTotal_of_small_fractions:
  assumes "\<forall>p\<in>set ps. p mod 100 < 50"
  shows "roundedTotal ps = sum_list (map Math_floor ps)"
proof -
  have "map Math_round ps = map Math_floor ps"
    by (rule map_cong [OF refl]) (use assms in \<open>auto simp: Math_round_groups\<close>)
  then show ?thesis
    by (simp only: roundedTotal_sum)
qed

text \<open>
  C1, as the code has it by design. For counts with a positive total below \<open>2 ^ 38\<close> the
  result is an array of integers of the length of the input, with every entry between 0 and
  100. The entries sum to exactly 100 when the rounded percentages, after the correction of an
  overshoot, sum to 100. Otherwise, when no percentage that enters the distribution has a
  fractional part of .50 or more, the budget of the distribution is the shortfall of the
  floors, and the entries sum to 100 less the part \<open>u\<close> of the budget that the loop could not
  place; a part is left only when every entry that was not rounded up has the fractional part
  0.00 or belongs to a tie group of more than \<open>u\<close> entries.
\<close>

theorem percentages_sum_to_100_unless_groups_block:
  assumes "0 < totalResponseCount od" and "totalResponseCount od < 2 ^ 38"
  shows "\<exists>r g u. preprocessPercentages up od = map Number r \<and> length r = length od
    \<and> (\<forall>x\<in>set r. 0 \<le> x \<and> x \<le> 100)
    \<and> (roundedTotal (correctedPercentages up od) = 100 \<longrightarrow> sum_list r = 100)
    \<and> (roundedTotal (correctedPercentages up od) \<noteq> 100
         \<and> (\<forall>p\<in>set (correctedPercentages up od). p mod 100 < 50) \<longrightarrow>
           r = map (\<lambda>p. Math_floor p + g p) (correctedPercentages up od)
         \<and> (\<forall>p. g p \<le> 1)
         \<and> (\<forall>p\<in>set (correctedPercentages up od). g p = 1 \<longrightarrow> p mod 100 \<noteq> 0)
         \<and> 0 \<le> u \<and> int (sum_list r) + u = 100
         \<and> (0 < u \<longrightarrow>
              (\<forall>p\<in>set (correctedPercentages up od). g p = 0 \<longrightarrow>
                 p mod 100 = 0
               \<or> u < int (length (filter (\<lambda>x. x = p) (correctedPercentages up od))))))"
proof -
  let ?ps = "correctedPercentages up od"
  have len: "length ?ps = length od"
    by (simp add: correctedPercentages_def rawPercentages_def)
  have floors: "sum_list (map Math_floor ?ps) \<le> 100"
    using assms(1) by (rule floors_of_corrected)
  have range: "\<forall>x\<in>set r. 0 \<le> x \<and> x \<le> 100" if "sum_list r \<le> 100" for r :: "nat list"
  proof (rule ballI)
    fix x
    assume "x \<in> set r"
    then have "x \<le> sum_list r"
      using member_le_sum_list [of x r] by simp
    then show "0 \<le> x \<and> x \<le> 100"
      using that by simp
  qed
  show ?thesis
  proof (cases "roundedTotal ?ps = 100")
    case True
    let ?r = "map Math_round ?ps"
    have "preprocessPercentages up od = map Number ?r"
      using True by (simp add: preprocessPercentages_steps [OF assms(1)] distribute_def comp_def)
    moreover have "length ?r = length od"
      using len by simp
    moreover have total: "sum_list ?r = 100"
      using True by (simp only: roundedTotal_sum)
    moreover have "\<forall>x\<in>set ?r. 0 \<le> x \<and> x \<le> 100"
      using total by (intro range) simp
    ultimately show ?thesis
      using True by (intro exI [of _ ?r] exI [of _ "\<lambda>p. 0"] exI [of _ 0]) simp
  next
    case False
    let ?rem = "100 - int (roundedTotal ?ps)"
    from finalPercentages_budget [of up ?ps ?rem]
    obtain g u where small: "\<forall>v. g v \<le> 1"
      and final: "finalPercentages up ?ps ?rem = map (\<lambda>p. Number (Math_floor p + g p)) ?ps"
      and nonzero: "\<forall>p\<in>set ?ps. g p = 1 \<longrightarrow> p mod 100 \<noteq> 0"
      and budget: "int (sum_list (map g ?ps)) \<le> max ?rem 0"
      and left: "u = ?rem - int (sum_list (map g ?ps))"
      and kept: "0 < u \<longrightarrow>
            (\<forall>p\<in>set ?ps. g p = 0 \<longrightarrow>
               p mod 100 = 0 \<or> u < int (length (filter (\<lambda>x. x = p) ?ps)))"
      by blast
    let ?r = "map (\<lambda>p. Math_floor p + g p) ?ps"
    have result: "preprocessPercentages up od = map Number ?r"
      using False final
      by (simp add: preprocessPercentages_steps [OF assms(1)] distribute_def comp_def)
    have length: "length ?r = length od"
      using len by simp
    have sum: "sum_list ?r = sum_list (map Math_floor ?ps) + sum_list (map g ?ps)"
      by (simp only: sum_list_addf)
    have "sum_list (map Math_floor ?ps) \<le> roundedTotal ?ps"
      by (simp add: roundedTotal_sum sum_list_floor_le_round)
    then have "sum_list ?r \<le> 100"
      using sum budget floors by linarith
    then have bounds: "\<forall>x\<in>set ?r. 0 \<le> x \<and> x \<le> 100"
      by (rule range)
    have placed: "0 \<le> u \<and> int (sum_list ?r) + u = 100"
      if "\<forall>p\<in>set ?ps. p mod 100 < 50"
    proof -
      have "roundedTotal ?ps = sum_list (map Math_floor ?ps)"
        using that by (rule roundedTotal_of_small_fractions)
      then show ?thesis
        using sum budget floors left by linarith
    qed
    show ?thesis
      using result length bounds False small nonzero placed kept
      by (intro exI [of _ ?r] exI [of _ g] exI [of _ u]) blast
  qed
qed

theorem percentages_sum_to_100_unless_groups_block_witness:
  "0 < totalResponseCount
         [\<lparr>optionIndex = 0, totalCount = 334, selectedByUser = False\<rparr>,
          \<lparr>optionIndex = 1, totalCount = 333, selectedByUser = False\<rparr>,
          \<lparr>optionIndex = 2, totalCount = 333, selectedByUser = False\<rparr>]
   \<and> totalResponseCount
         [\<lparr>optionIndex = 0, totalCount = 334, selectedByUser = False\<rparr>,
          \<lparr>optionIndex = 1, totalCount = 333, selectedByUser = False\<rparr>,
          \<lparr>optionIndex = 2, totalCount = 333, selectedByUser = False\<rparr>] < 2 ^ 38
   \<and> correctedPercentages larger_n
         [\<lparr>optionIndex = 0, totalCount = 334, selectedByUser = False\<rparr>,
          \<lparr>optionIndex = 1, totalCount = 333, selectedByUser = False\<rparr>,
          \<lparr>optionIndex = 2, totalCount = 333, selectedByUser = False\<rparr>] = [3340, 3330, 3330]
   \<and> roundedTotal [3340, 3330, 3330] \<noteq> 100
   \<and> (3340 :: nat) mod 100 < 50 \<and> (3330 :: nat) mod 100 < 50
   \<and> (\<exists>r u. preprocessPercentages larger_n
         [\<lparr>optionIndex = 0, totalCount = 334, selectedByUser = False\<rparr>,
          \<lparr>optionIndex = 1, totalCount = 333, selectedByUser = False\<rparr>,
          \<lparr>optionIndex = 2, totalCount = 333, selectedByUser = False\<rparr>] = map Number r
        \<and> length r = 3 \<and> 0 \<le> u \<and> int (sum_list r) + u = 100)
   \<and> 0 < totalResponseCount
         [\<lparr>optionIndex = 0, totalCount = 1, selectedByUser = False\<rparr>,
          \<lparr>optionIndex = 1, totalCount = 2, selectedByUser = False\<rparr>]
   \<and> totalResponseCount
         [\<lparr>optionIndex = 0, totalCount = 1, selectedByUser = False\<rparr>,
          \<lparr>optionIndex = 1, totalCount = 2, selectedByUser = False\<rparr>] < 2 ^ 38
   \<and> roundedTotal (correctedPercentages larger_n
         [\<lparr>optionIndex = 0, totalCount = 1, selectedByUser = False\<rparr>,
          \<lparr>optionIndex = 1, totalCount = 2, selectedByUser = False\<rparr>]) = 100
   \<and> (\<exists>r. preprocessPercentages larger_n
         [\<lparr>optionIndex = 0, totalCount = 1, selectedByUser = False\<rparr>,
          \<lparr>optionIndex = 1, totalCount = 2, selectedByUser = False\<rparr>] = map Number r
        \<and> length r = 2 \<and> sum_list r = 100)"
proof -
  let ?a = "[\<lparr>optionIndex = 0, totalCount = 334, selectedByUser = False\<rparr>,
          \<lparr>optionIndex = 1, totalCount = 333, selectedByUser = False\<rparr>,
          \<lparr>optionIndex = 2, totalCount = 333, selectedByUser = False\<rparr>]"
  let ?b = "[\<lparr>optionIndex = 0, totalCount = 1, selectedByUser = False\<rparr>,
          \<lparr>optionIndex = 1, totalCount = 2, selectedByUser = False\<rparr>]"
  have pa: "0 < totalResponseCount ?a" and ba: "totalResponseCount ?a < 2 ^ 38"
    and pb: "0 < totalResponseCount ?b" and bb: "totalResponseCount ?b < 2 ^ 38"
    by (simp_all add: totalResponseCount_def)
  have ca: "correctedPercentages larger_n ?a = [3340, 3330, 3330]"
    by (simp add: correctedPercentages_def rawPercentages_def totalResponseCount_def
          toFixed2_def roundedTotal_def Math_round_def)
  have cb: "correctedPercentages larger_n ?b = [3333, 6667]"
    by (simp add: correctedPercentages_def rawPercentages_def totalResponseCount_def
          toFixed2_def roundedTotal_def Math_round_def)
  have ta: "roundedTotal [3340, 3330, 3330] \<noteq> 100"
    and fa: "\<forall>p\<in>set [3340, 3330, 3330 :: nat]. p mod 100 < 50"
    and tb: "roundedTotal [3333, 6667] = 100"
    by (simp_all add: roundedTotal_def Math_round_def)
  from percentages_sum_to_100_unless_groups_block [OF pa ba, of larger_n]
  obtain r g u where "preprocessPercentages larger_n ?a = map Number r" and "length r = length ?a"
    and "roundedTotal (correctedPercentages larger_n ?a) \<noteq> 100
         \<and> (\<forall>p\<in>set (correctedPercentages larger_n ?a). p mod 100 < 50) \<longrightarrow>
           0 \<le> u \<and> int (sum_list r) + u = 100"
    by blast
  then have first: "\<exists>r u. preprocessPercentages larger_n ?a = map Number r
        \<and> length r = 3 \<and> 0 \<le> u \<and> int (sum_list r) + u = 100"
    unfolding ca using ta fa by (intro exI [of _ r] exI [of _ u]) simp
  from percentages_sum_to_100_unless_groups_block [OF pb bb, of larger_n]
  obtain r' where "preprocessPercentages larger_n ?b = map Number r'" and "length r' = length ?b"
    and "roundedTotal (correctedPercentages larger_n ?b) = 100 \<longrightarrow> sum_list r' = 100"
    by blast
  then have second: "\<exists>r. preprocessPercentages larger_n ?b = map Number r
        \<and> length r = 2 \<and> sum_list r = 100"
    unfolding cb using tb by (intro exI [of _ r']) simp
  have tb': "roundedTotal (correctedPercentages larger_n ?b) = 100"
    unfolding cb by (rule tb)
  have small: "(3340 :: nat) mod 100 < 50" "(3330 :: nat) mod 100 < 50"
    by simp_all
  show ?thesis
    using pa ba ca ta small first pb bb tb' second by blast
qed

text \<open>
  The sum is not always 100. Three options with two responses each are 33.33 percent each; the
  rounded values sum to 99, the one point left cannot go to a group of three, and the result
  is 33, 33, 33.
\<close>

theorem percentages_sum_counterexample:
  "preprocessPercentages larger_n
      [\<lparr>optionIndex = 0, totalCount = 2, selectedByUser = False\<rparr>,
       \<lparr>optionIndex = 1, totalCount = 2, selectedByUser = False\<rparr>,
       \<lparr>optionIndex = 2, totalCount = 2, selectedByUser = False\<rparr>]
     = map Number [33, 33, 33]
   \<and> sum_list [33, 33, 33 :: nat] \<noteq> 100"
  by (simp add: preprocessPercentages_def totalResponseCount_def rawPercentages_def
        roundedTotal_def toFixed2_def Math_round_def Math_floor_def finalPercentages_def
        assignments_def preserve_def enumerate_eq_zip upt_rec sort_entries_def compare_def
        while_loop.simps assign_def Let_def)

text \<open>
  The budget of the distribution is 100 less the sum of the rounded percentages, while the
  entries it is added to are floors. For the counts 1, 4, 7, 11 (4.35, 17.39, 30.43 and 47.83
  percent, no two equal) the rounded sum is 99, the budget is 1, the floors sum to 98 and the
  result is 4, 17, 30, 48.
\<close>

lemma budget_from_rounded_sum_example: "preprocessPercentages up
      [\<lparr>optionIndex = 0, totalCount = 1, selectedByUser = False\<rparr>,
       \<lparr>optionIndex = 1, totalCount = 4, selectedByUser = False\<rparr>,
       \<lparr>optionIndex = 2, totalCount = 7, selectedByUser = False\<rparr>,
       \<lparr>optionIndex = 3, totalCount = 11, selectedByUser = False\<rparr>]
     = [Number 4, Number 17, Number 30, Number 48]"
  by (simp add: preprocessPercentages_def totalResponseCount_def rawPercentages_def
        roundedTotal_def toFixed2_def Math_round_def Math_floor_def finalPercentages_def
        assignments_def preserve_def enumerate_eq_zip upt_rec sort_entries_def compare_def
        while_loop.simps assign_def Let_def)

subsection \<open>Tie groups\<close>

text \<open>
  C2, as the code has it. For the counts 1, 1, 1 the result is 33, 33, 33, which sums to 99:
  the three entries are one tie group, larger than the budget of one point, and are floored
  together. In general the loop gives every entry the floor of its percentage plus a bonus of
  0 or 1 that depends on the percentage only, so a tie group is never split; the bonus is 1
  only for a percentage with a fractional part other than 0.00; and the bonuses together do
  not exceed the budget. Hence options with equal counts always get equal results.
\<close>

theorem tie_groups_are_not_split:
  "preprocessPercentages up
      [\<lparr>optionIndex = 0, totalCount = 1, selectedByUser = False\<rparr>,
       \<lparr>optionIndex = 1, totalCount = 1, selectedByUser = False\<rparr>,
       \<lparr>optionIndex = 2, totalCount = 1, selectedByUser = False\<rparr>]
     = [Number 33, Number 33, Number 33]
   \<and> (\<exists>g. (\<forall>v. g v \<le> 1)
          \<and> finalPercentages up ps rem = map (\<lambda>p. Number (Math_floor p + g p)) ps
          \<and> (\<forall>p\<in>set ps. g p = 1 \<longrightarrow> p mod 100 \<noteq> 0)
          \<and> int (sum_list (map g ps)) \<le> max rem 0)
   \<and> (0 < totalResponseCount od \<longrightarrow>
        (\<forall>i<length od. \<forall>j<length od. totalCount (od ! i) = totalCount (od ! j) \<longrightarrow>
           preprocessPercentages up od ! i = preprocessPercentages up od ! j))"
proof (intro conjI impI allI)
  show "preprocessPercentages up
      [\<lparr>optionIndex = 0, totalCount = 1, selectedByUser = False\<rparr>,
       \<lparr>optionIndex = 1, totalCount = 1, selectedByUser = False\<rparr>,
       \<lparr>optionIndex = 2, totalCount = 1, selectedByUser = False\<rparr>]
     = [Number 33, Number 33, Number 33]"
    by (simp add: preprocessPercentages_def totalResponseCount_def rawPercentages_def
        roundedTotal_def toFixed2_def Math_round_def Math_floor_def finalPercentages_def
        assignments_def preserve_def enumerate_eq_zip upt_rec sort_entries_def compare_def
        while_loop.simps assign_def Let_def)
  show "\<exists>g. (\<forall>v. g v \<le> 1)
          \<and> finalPercentages up ps rem = map (\<lambda>p. Number (Math_floor p + g p)) ps
          \<and> (\<forall>p\<in>set ps. g p = 1 \<longrightarrow> p mod 100 \<noteq> 0)
          \<and> int (sum_list (map g ps)) \<le> max rem 0"
    by (rule finalPercentages_groups)
  fix i j
  assume positive: "0 < totalResponseCount od" and i: "i < length od" and j: "j < length od"
    and same: "totalCount (od ! i) = totalCount (od ! j)"
  let ?ps = "correctedPercentages up od"
  from distribute_groups [of up ?ps]
  obtain g where result: "distribute up ?ps = map (\<lambda>p. Number (Math_floor p + g p)) ?ps"
    by blast
  have len: "length ?ps = length od"
    by (simp add: correctedPercentages_def rawPercentages_def)
  have "?ps ! i = ?ps ! j"
    using i j same by (simp add: correctedPercentages_def rawPercentages_def)
  then show "preprocessPercentages up od ! i = preprocessPercentages up od ! j"
    using i j len by (simp add: preprocessPercentages_steps [OF positive] result)
qed

theorem tie_groups_are_not_split_witness:
  "0 < totalResponseCount
         [\<lparr>optionIndex = 0, totalCount = 1, selectedByUser = False\<rparr>,
          \<lparr>optionIndex = 1, totalCount = 3, selectedByUser = False\<rparr>,
          \<lparr>optionIndex = 2, totalCount = 1, selectedByUser = False\<rparr>]
   \<and> preprocessPercentages larger_n
         [\<lparr>optionIndex = 0, totalCount = 1, selectedByUser = False\<rparr>,
          \<lparr>optionIndex = 1, totalCount = 3, selectedByUser = False\<rparr>,
          \<lparr>optionIndex = 2, totalCount = 1, selectedByUser = False\<rparr>] ! 0
     = preprocessPercentages larger_n
         [\<lparr>optionIndex = 0, totalCount = 1, selectedByUser = False\<rparr>,
          \<lparr>optionIndex = 1, totalCount = 3, selectedByUser = False\<rparr>,
          \<lparr>optionIndex = 2, totalCount = 1, selectedByUser = False\<rparr>] ! 2
   \<and> (\<exists>g. (\<forall>v. g v \<le> 1)
          \<and> finalPercentages larger_n [3333, 3333, 3333] 1
              = map (\<lambda>p. Number (Math_floor p + g p)) [3333, 3333, 3333]
          \<and> (\<forall>p\<in>set [3333, 3333, 3333]. g p = 1 \<longrightarrow> p mod 100 \<noteq> 0)
          \<and> int (sum_list (map g [3333, 3333, 3333])) \<le> max 1 0)"
proof -
  have positive: "0 < totalResponseCount
         [\<lparr>optionIndex = 0, totalCount = 1, selectedByUser = False\<rparr>,
          \<lparr>optionIndex = 1, totalCount = 3, selectedByUser = False\<rparr>,
          \<lparr>optionIndex = 2, totalCount = 1, selectedByUser = False\<rparr>]"
    by (simp add: totalResponseCount_def)
  note inst = tie_groups_are_not_split [of larger_n "[3333, 3333, 3333]" 1
         "[\<lparr>optionIndex = 0, totalCount = 1, selectedByUser = False\<rparr>,
          \<lparr>optionIndex = 1, totalCount = 3, selectedByUser = False\<rparr>,
          \<lparr>optionIndex = 2, totalCount = 1, selectedByUser = False\<rparr>]"]
  have groups: "\<exists>g. (\<forall>v. g v \<le> 1)
          \<and> finalPercentages larger_n [3333, 3333, 3333] 1
              = map (\<lambda>p. Number (Math_floor p + g p)) [3333, 3333, 3333]
          \<and> (\<forall>p\<in>set [3333, 3333, 3333]. g p = 1 \<longrightarrow> p mod 100 \<noteq> 0)
          \<and> int (sum_list (map g [3333, 3333, 3333])) \<le> max 1 0"
    using inst by (rule conjunct1 [OF conjunct2])
  have equal: "preprocessPercentages larger_n
         [\<lparr>optionIndex = 0, totalCount = 1, selectedByUser = False\<rparr>,
          \<lparr>optionIndex = 1, totalCount = 3, selectedByUser = False\<rparr>,
          \<lparr>optionIndex = 2, totalCount = 1, selectedByUser = False\<rparr>] ! 0
     = preprocessPercentages larger_n
         [\<lparr>optionIndex = 0, totalCount = 1, selectedByUser = False\<rparr>,
          \<lparr>optionIndex = 1, totalCount = 3, selectedByUser = False\<rparr>,
          \<lparr>optionIndex = 2, totalCount = 1, selectedByUser = False\<rparr>] ! 2"
    using inst positive by simp
  show ?thesis
    using positive equal groups by blast
qed

text \<open>The claim as the specification has it fails: the result for 1, 1, 1 sums to 99.\<close>

theorem tie_groups_counterexample:
  "preprocessPercentages larger_n
      [\<lparr>optionIndex = 0, totalCount = 1, selectedByUser = False\<rparr>,
       \<lparr>optionIndex = 1, totalCount = 1, selectedByUser = False\<rparr>,
       \<lparr>optionIndex = 2, totalCount = 1, selectedByUser = False\<rparr>]
     = [Number 33, Number 33, Number 33]
   \<and> (33 + 33 + 33 :: nat) = 99"
  by (simp add: preprocessPercentages_def totalResponseCount_def rawPercentages_def
        roundedTotal_def toFixed2_def Math_round_def Math_floor_def finalPercentages_def
        assignments_def preserve_def enumerate_eq_zip upt_rec sort_entries_def compare_def
        while_loop.simps assign_def Let_def)

subsection \<open>The correction of an overshoot\<close>

lemma frac_hundredths: "frac (real p / 100) = real (p mod 100) / 100"
proof -
  have "real p = real (p div 100 * 100 + p mod 100)"
    by simp
  also have "\<dots> = real (p div 100) * 100 + real (p mod 100)"
    by (simp only: of_nat_add of_nat_mult of_nat_numeral)
  finally have "real p / 100 - real (p mod 100) / 100 = real (p div 100)"
    by (simp add: field_simps)
  then have "real p / 100 - real (p mod 100) / 100 \<in> \<int>"
    by simp
  moreover have "0 \<le> real (p mod 100) / 100" and "real (p mod 100) / 100 < 1"
    by simp_all
  ultimately show ?thesis
    by (simp only: frac_unique_iff)
qed

lemma less_two_thirds_of_fraction_eq:
  "less_two_thirds_of_fraction p = real (p div 100) + real (p mod 100) / 300"
proof -
  have "real p = real (p div 100 * 100 + p mod 100)"
    by simp
  also have "\<dots> = real (p div 100) * 100 + real (p mod 100)"
    by (simp only: of_nat_add of_nat_mult of_nat_numeral)
  finally have "real p / 100 = real (p div 100) + real (p mod 100) / 100"
    by (simp add: field_simps)
  then show ?thesis
    unfolding less_two_thirds_of_fraction_def frac_hundredths by (simp add: field_simps)
qed

lemma adjust_is_nearest:
  "\<bar>real (adjust up p) / 100 - less_two_thirds_of_fraction p\<bar> < 1 / 200"
proof -
  define f where "f = p mod 100"
  define q m where "q = f div 3" and "m = f mod 3"
  have "f = q * 3 + m"
    by (simp add: q_def m_def)
  then have f: "real f = real q * 3 + real m"
    by (simp only: of_nat_add of_nat_mult of_nat_numeral)
  have m: "m = 0 \<or> m = 1 \<or> m = 2"
    unfolding m_def by presburger
  have third: "Suc f div 3 = q + (if m = 2 then 1 else 0)"
    unfolding q_def m_def by presburger
  have "adjust up p = p div 100 * 100 + Suc f div 3"
    by (simp add: adjust_eq f_def)
  then have "real (adjust up p) = real (p div 100) * 100 + real (q + (if m = 2 then 1 else 0))"
    unfolding third by (simp only: of_nat_add of_nat_mult of_nat_numeral)
  then have code: "real (adjust up p) / 100
      = real (p div 100) + (real q + (if m = 2 then 1 else 0)) / 100"
    by (auto simp: field_simps)
  have spec: "less_two_thirds_of_fraction p = real (p div 100) + (real q * 3 + real m) / 300"
    by (simp only: less_two_thirds_of_fraction_eq f_def [symmetric] f)
  show ?thesis
    unfolding spec code using m by (auto simp: field_simps)
qed

text \<open>
  C5. When the independently rounded percentages sum to more than 100, the result is computed
  from the list in which every percentage is replaced by its correction, with the rounded sum
  taken anew over that list; the correction of a percentage is the two-digit decimal nearest to
  the percentage less two thirds of its fractional part. When the sum is at most 100, the
  result is computed from the percentages as they are.
\<close>

theorem overshoot_correction:
  assumes "0 < totalResponseCount od"
  shows "(100 < roundedTotal (rawPercentages up od) \<longrightarrow>
           correctedPercentages up od = map (adjust up) (rawPercentages up od))
    \<and> (roundedTotal (rawPercentages up od) \<le> 100 \<longrightarrow>
           correctedPercentages up od = rawPercentages up od)
    \<and> preprocessPercentages up od =
        (if roundedTotal (correctedPercentages up od) = 100
         then map (\<lambda>percentage. Number (Math_round percentage)) (correctedPercentages up od)
         else finalPercentages up (correctedPercentages up od)
                (100 - int (roundedTotal (correctedPercentages up od))))
    \<and> (\<forall>p. \<bar>real (adjust up p) / 100 - less_two_thirds_of_fraction p\<bar> < 1 / 200)"
proof (intro conjI impI allI)
  show "correctedPercentages up od = map (adjust up) (rawPercentages up od)"
    if "100 < roundedTotal (rawPercentages up od)"
    using that by (simp add: correctedPercentages_def)
  show "correctedPercentages up od = rawPercentages up od"
    if "roundedTotal (rawPercentages up od) \<le> 100"
    using that by (simp add: correctedPercentages_def)
  show "preprocessPercentages up od =
        (if roundedTotal (correctedPercentages up od) = 100
         then map (\<lambda>percentage. Number (Math_round percentage)) (correctedPercentages up od)
         else finalPercentages up (correctedPercentages up od)
                (100 - int (roundedTotal (correctedPercentages up od))))"
    unfolding preprocessPercentages_steps [OF assms] distribute_def by (rule refl)
  show "\<bar>real (adjust up p) / 100 - less_two_thirds_of_fraction p\<bar> < 1 / 200" for p
    by (rule adjust_is_nearest)
qed

theorem overshoot_correction_witness:
  "0 < totalResponseCount
         [\<lparr>optionIndex = 0, totalCount = 1, selectedByUser = False\<rparr>,
          \<lparr>optionIndex = 1, totalCount = 1, selectedByUser = False\<rparr>,
          \<lparr>optionIndex = 2, totalCount = 1, selectedByUser = False\<rparr>,
          \<lparr>optionIndex = 3, totalCount = 3, selectedByUser = False\<rparr>]
   \<and> 100 < roundedTotal (rawPercentages larger_n
         [\<lparr>optionIndex = 0, totalCount = 1, selectedByUser = False\<rparr>,
          \<lparr>optionIndex = 1, totalCount = 1, selectedByUser = False\<rparr>,
          \<lparr>optionIndex = 2, totalCount = 1, selectedByUser = False\<rparr>,
          \<lparr>optionIndex = 3, totalCount = 3, selectedByUser = False\<rparr>])
   \<and> correctedPercentages larger_n
         [\<lparr>optionIndex = 0, totalCount = 1, selectedByUser = False\<rparr>,
          \<lparr>optionIndex = 1, totalCount = 1, selectedByUser = False\<rparr>,
          \<lparr>optionIndex = 2, totalCount = 1, selectedByUser = False\<rparr>,
          \<lparr>optionIndex = 3, totalCount = 3, selectedByUser = False\<rparr>]
       = map (adjust larger_n) [1667, 1667, 1667, 5000]
   \<and> roundedTotal (rawPercentages larger_n
         [\<lparr>optionIndex = 0, totalCount = 1, selectedByUser = False\<rparr>,
          \<lparr>optionIndex = 1, totalCount = 2, selectedByUser = False\<rparr>]) \<le> 100
   \<and> correctedPercentages larger_n
         [\<lparr>optionIndex = 0, totalCount = 1, selectedByUser = False\<rparr>,
          \<lparr>optionIndex = 1, totalCount = 2, selectedByUser = False\<rparr>]
       = [3333, 6667]"
proof -
  let ?a = "[\<lparr>optionIndex = 0, totalCount = 1, selectedByUser = False\<rparr>,
          \<lparr>optionIndex = 1, totalCount = 1, selectedByUser = False\<rparr>,
          \<lparr>optionIndex = 2, totalCount = 1, selectedByUser = False\<rparr>,
          \<lparr>optionIndex = 3, totalCount = 3, selectedByUser = False\<rparr>]"
  let ?b = "[\<lparr>optionIndex = 0, totalCount = 1, selectedByUser = False\<rparr>,
          \<lparr>optionIndex = 1, totalCount = 2, selectedByUser = False\<rparr>]"
  have pa: "0 < totalResponseCount ?a" and pb: "0 < totalResponseCount ?b"
    by (simp_all add: totalResponseCount_def)
  have ra: "rawPercentages larger_n ?a = [1667, 1667, 1667, 5000]"
    and rb: "rawPercentages larger_n ?b = [3333, 6667]"
    by (simp_all add: rawPercentages_def totalResponseCount_def toFixed2_def larger_n_def)
  have over: "100 < roundedTotal (rawPercentages larger_n ?a)"
    and under: "roundedTotal (rawPercentages larger_n ?b) \<le> 100"
    unfolding ra rb by (simp_all add: roundedTotal_def Math_round_def)
  have "correctedPercentages larger_n ?a = map (adjust larger_n) (rawPercentages larger_n ?a)"
    using overshoot_correction [OF pa, of larger_n] over by blast
  then have ca: "correctedPercentages larger_n ?a = map (adjust larger_n) [1667, 1667, 1667, 5000]"
    unfolding ra .
  have "correctedPercentages larger_n ?b = rawPercentages larger_n ?b"
    using overshoot_correction [OF pb, of larger_n] under by blast
  then have cb: "correctedPercentages larger_n ?b = [3333, 6667]"
    unfolding rb .
  show ?thesis
    using pa over ca under cb by blast
qed

subsection \<open>Termination and totality of the distribution\<close>

lemma while_loop_exit:
  "\<exists>rem' rest assigned. while_loop rem po acc = (rem', rest, assigned)
     \<and> \<not> (0 < rem' \<and> rest \<noteq> []) \<and> length rest \<le> length po"
proof (induction rem po acc rule: while_loop.induct)
  case (1 rem po acc)
  show ?case
  proof (cases "0 < rem \<and> po \<noteq> []")
    case False
    then have "while_loop rem po acc = (rem, po, acc)"
      by (simp add: while_loop.simps)
    then show ?thesis
      using False by simp
  next
    case True
    let ?h = "hd po"
    let ?ties = "filter (\<lambda>percentageObj. pvalue percentageObj = pvalue ?h) po"
    let ?rest = "filter (\<lambda>percentageObj. pvalue percentageObj \<noteq> pvalue ?h) po"
    let ?up = "int (length ?ties) \<le> rem \<and> remainder ?h \<noteq> 0"
    let ?rem = "rem - (if ?up then int (length ?ties) else 0)"
    let ?acc = "acc @ map (\<lambda>percentageObj. (originalIndex percentageObj,
                     Math_floor (pvalue percentageObj) + (if ?up then 1 else 0))) ?ties"
    have unfold: "while_loop rem po acc = while_loop ?rem ?rest ?acc"
      using True by (subst while_loop.simps) (simp add: Let_def)
    from "1.IH" [OF True refl refl refl refl]
    obtain rem' rest assigned where loop: "while_loop ?rem ?rest ?acc = (rem', rest, assigned)"
      and exit: "\<not> (0 < rem' \<and> rest \<noteq> [])" and shorter: "length rest \<le> length ?rest"
      by blast
    have "length rest \<le> length po"
      by (rule le_trans [OF shorter length_filter_le])
    then show ?thesis
      using loop exit unfolding unfold by blast
  qed
qed

text \<open>
  C10. The loop is a total function: its recursion is well founded on the number of entries not
  yet visited, which every iteration decreases whatever the budget does. It returns a state in
  which its condition is false, so a budget that is still positive means that every entry was
  visited. The assignments of the loop and of the pass over the entries it left are, up to
  their order, one assignment to each index below the length of the input; the array they
  build has that length and no hole; and so has the result of the whole function for counts
  with a positive total.
\<close>

theorem distribution_terminates_and_fills_every_position:
  "(\<exists>rem' rest assigned. while_loop rem po acc = (rem', rest, assigned)
      \<and> \<not> (0 < rem' \<and> rest \<noteq> []) \<and> length rest \<le> length po)
   \<and> mset (map fst (assignments up ps rem)) = mset [0..<length ps]
   \<and> (\<exists>r. finalPercentages up ps rem = map Number r \<and> length r = length ps)
   \<and> (0 < totalResponseCount od \<longrightarrow>
        (\<exists>r. preprocessPercentages up od = map Number r \<and> length r = length od))"
proof (intro conjI impI)
  show "\<exists>rem' rest assigned. while_loop rem po acc = (rem', rest, assigned)
      \<and> \<not> (0 < rem' \<and> rest \<noteq> []) \<and> length rest \<le> length po"
    by (rule while_loop_exit)
  from assignments_groups [of up ps rem]
  obtain g where "mset (assignments up ps rem)
           = mset (map (\<lambda>i. (i, Math_floor (ps ! i) + g (ps ! i))) [0..<length ps])"
    by blast
  then have "image_mset fst (mset (assignments up ps rem))
           = image_mset fst (mset (map (\<lambda>i. (i, Math_floor (ps ! i) + g (ps ! i))) [0..<length ps]))"
    by simp
  then show "mset (map fst (assignments up ps rem)) = mset [0..<length ps]"
    by (simp add: image_mset.compositionality comp_def)
  from finalPercentages_groups [of up ps rem]
  obtain g where "finalPercentages up ps rem = map (\<lambda>p. Number (Math_floor p + g p)) ps"
    by blast
  then have "finalPercentages up ps rem = map Number (map (\<lambda>p. Math_floor p + g p) ps)"
    by (simp add: comp_def)
  then show "\<exists>r. finalPercentages up ps rem = map Number r \<and> length r = length ps"
    by (intro exI [of _ "map (\<lambda>p. Math_floor p + g p) ps"]) simp
next
  assume positive: "0 < totalResponseCount od"
  let ?ps = "correctedPercentages up od"
  from distribute_groups [of up ?ps]
  obtain g where "distribute up ?ps = map (\<lambda>p. Number (Math_floor p + g p)) ?ps"
    by blast
  then have "preprocessPercentages up od = map Number (map (\<lambda>p. Math_floor p + g p) ?ps)"
    by (simp add: preprocessPercentages_steps [OF positive] comp_def)
  moreover have "length (map (\<lambda>p. Math_floor p + g p) ?ps) = length od"
    by (simp add: correctedPercentages_def rawPercentages_def)
  ultimately show "\<exists>r. preprocessPercentages up od = map Number r \<and> length r = length od"
    by blast
qed

theorem distribution_terminates_and_fills_every_position_witness:
  "0 < totalResponseCount
         [\<lparr>optionIndex = 0, totalCount = 1, selectedByUser = False\<rparr>,
          \<lparr>optionIndex = 1, totalCount = 1, selectedByUser = False\<rparr>,
          \<lparr>optionIndex = 2, totalCount = 1, selectedByUser = False\<rparr>]
   \<and> (\<exists>r. preprocessPercentages larger_n
         [\<lparr>optionIndex = 0, totalCount = 1, selectedByUser = False\<rparr>,
          \<lparr>optionIndex = 1, totalCount = 1, selectedByUser = False\<rparr>,
          \<lparr>optionIndex = 2, totalCount = 1, selectedByUser = False\<rparr>] = map Number r
        \<and> length r = 3)
   \<and> mset (map fst (assignments larger_n [3333, 3333, 3333] 1))
       = mset [0..<length [3333, 3333, 3333 :: nat]]"
proof -
  let ?a = "[\<lparr>optionIndex = 0, totalCount = 1, selectedByUser = False\<rparr>,
          \<lparr>optionIndex = 1, totalCount = 1, selectedByUser = False\<rparr>,
          \<lparr>optionIndex = 2, totalCount = 1, selectedByUser = False\<rparr>]"
  have positive: "0 < totalResponseCount ?a"
    by (simp add: totalResponseCount_def)
  note inst = distribution_terminates_and_fills_every_position
                [of 1 "[]" "[]" larger_n "[3333, 3333, 3333]" ?a]
  from inst positive obtain r where "preprocessPercentages larger_n ?a = map Number r"
    and "length r = length ?a"
    by blast
  then have "\<exists>r. preprocessPercentages larger_n ?a = map Number r \<and> length r = 3"
    by (intro exI [of _ r]) simp
  moreover have "mset (map fst (assignments larger_n [3333, 3333, 3333] 1))
       = mset [0..<length [3333, 3333, 3333 :: nat]]"
    by (rule conjunct1 [OF conjunct2 [OF inst]])
  ultimately show ?thesis
    using positive by blast
qed

end
